theory Spec2Isabelle
  imports Main
begin

section \<open>Python values, exceptions and the operations of the source on them\<close>

text \<open>
  The raw items handed back by the remote collaborators are JSON documents turned into
  Python values (\<^verbatim>\<open>result.json()\<close>, \<^verbatim>\<open>json.loads\<close>). One datatype holds
  them together with references to entities (\<open>PRef\<close>), which is what the
  \<^verbatim>\<open>videos\<close> future of a playlist stores. A dictionary is an association list in its
  iteration order. \<open>PNone\<close> is Python's \<^verbatim>\<open>None\<close>, the absent marker.
\<close>

datatype pyval =
    PNone
  | PBool bool
  | PInt int
  | PStr string
  | PList "pyval list"
  | PDict "(string \<times> pyval) list"
  | PRef nat

text \<open>
  The exceptions the modelled code can raise. \<open>RemoteError\<close> is any exception raised by a
  collaborator call; \<open>QueueFull\<close> is what a second \<^verbatim>\<open>set\<close> of a future raises;
  \<open>UnboundLocalError\<close> is the read of a local that no branch assigned; \<open>Unmodelled\<close> marks
  an input the model gives no meaning to (an entity id that is not a string).
\<close>

datatype exn =
    KeyError
  | TypeError
  | AttributeError
  | UnboundLocalError
  | QueueFull
  | RemoteError
  | Unmodelled

text \<open>Truth value testing: \<^verbatim>\<open>not item\<close>.\<close>

fun falsy :: "pyval \<Rightarrow> bool" where
  "falsy PNone = True"
| "falsy (PBool b) = (\<not> b)"
| "falsy (PInt n) = (n = 0)"
| "falsy (PStr s) = (s = [])"
| "falsy (PList xs) = (xs = [])"
| "falsy (PDict kvs) = (kvs = [])"
| "falsy (PRef a) = False"

text \<open>
  \<^verbatim>\<open>v[k]\<close> with a string key: a dictionary looks the key up and raises KeyError when it
  is missing; every other value raises TypeError (a string or a list wants an integer
  index, the rest is not subscriptable).
\<close>

fun subscript :: "pyval \<Rightarrow> string \<Rightarrow> exn + pyval" where
  "subscript (PDict kvs) k = (case map_of kvs k of None \<Rightarrow> Inl KeyError | Some v \<Rightarrow> Inr v)"
| "subscript _ k = Inl TypeError"

text \<open>\<^verbatim>\<open>v.get(k)\<close>: only a dictionary has the method; a missing key gives None.\<close>

fun dict_get :: "pyval \<Rightarrow> string \<Rightarrow> exn + pyval" where
  "dict_get (PDict kvs) k = (case map_of kvs k of None \<Rightarrow> Inr PNone | Some v \<Rightarrow> Inr v)"
| "dict_get _ k = Inl AttributeError"

text \<open>\<^verbatim>\<open>v.items()\<close>: the key/value pairs of a dictionary.\<close>

fun dict_items :: "pyval \<Rightarrow> exn + (string \<times> pyval) list" where
  "dict_items (PDict kvs) = Inr kvs"
| "dict_items _ = Inl AttributeError"

text \<open>
  \<^verbatim>\<open>for x in v\<close>: a list yields its elements, a dictionary its keys, a string its
  characters; nothing else is iterable.
\<close>

fun py_iter :: "pyval \<Rightarrow> exn + pyval list" where
  "py_iter (PList xs) = Inr xs"
| "py_iter (PDict kvs) = Inr (map (\<lambda>kv. PStr (fst kv)) kvs)"
| "py_iter (PStr s) = Inr (map (\<lambda>c. PStr [c]) s)"
| "py_iter _ = Inl TypeError"

text \<open>Sequencing of computations that may raise.\<close>

definition bind_exn :: "exn + 'a \<Rightarrow> ('a \<Rightarrow> exn + 'b) \<Rightarrow> exn + 'b" where
  "bind_exn m f = (case m of Inl e \<Rightarrow> Inl e | Inr x \<Rightarrow> f x)"

section \<open>Duration strings\<close>

text \<open>
  \<^verbatim>\<open>re.search('PT((?P<hours>\\d+)H)?((?P<minutes>\\d+)M)?((?P<seconds>\\d+)S)?', d)\<close>:
  the match starts at the leftmost \<^verbatim>\<open>PT\<close> of the string, since everything after it is
  optional. \<^verbatim>\<open>\\d\<close> is a character from 0 (code 48) to 9 (code 57). Each group is greedy: it matches when the longest run of digits at the current
  position is not empty and is followed by the group's letter; nothing after it can fail,
  so the matcher never gives a matched group back.
\<close>

definition is_digit :: "char \<Rightarrow> bool" where
  "is_digit c = (48 \<le> (of_char c :: nat) \<and> (of_char c :: nat) \<le> 57)"

fun after_PT :: "string \<Rightarrow> string option" where
  "after_PT (a # b # r) = (if a = CHR ''P'' \<and> b = CHR ''T'' then Some r else after_PT (b # r))"
| "after_PT _ = None"

definition re_group :: "char \<Rightarrow> string \<Rightarrow> string option \<times> string" where
  "re_group letter s =
     (let ds = takeWhile is_digit s; r = dropWhile is_digit s
      in case r of
           [] \<Rightarrow> (None, s)
         | c # r' \<Rightarrow> if ds \<noteq> [] \<and> c = letter then (Some ds, r') else (None, s))"

text \<open>\<^verbatim>\<open>int(s)\<close> on a string of decimal digits.\<close>

definition digit_value :: "char \<Rightarrow> int" where
  "digit_value c = int (of_char c) - 48"

definition int_of_digits :: "string \<Rightarrow> int" where
  "int_of_digits s = foldl (\<lambda>n c. 10 * n + digit_value c) 0 s"

text \<open>\<^verbatim>\<open>int(m.group(name) or 0)\<close>: a group that took no part in the match is None.\<close>

definition group_or_0 :: "string option \<Rightarrow> int" where
  "group_or_0 g = (case g of None \<Rightarrow> 0 | Some ds \<Rightarrow> if ds = [] then 0 else int_of_digits ds)"

text \<open>
  Lines 179 to 185 of \<^verbatim>\<open>_set_api_data\<close>. \<^verbatim>\<open>re.search\<close> raises TypeError on a value
  that is not a string; when the string holds no \<^verbatim>\<open>PT\<close> it returns None, and
  \<^verbatim>\<open>m.group\<close> raises AttributeError.
\<close>

definition parse_duration :: "pyval \<Rightarrow> exn + pyval" where
  "parse_duration d =
     (case d of
        PStr s \<Rightarrow>
          (case after_PT s of
             None \<Rightarrow> Inl AttributeError
           | Some r \<Rightarrow>
               (let (hours, r1) = re_group (CHR ''H'') r;
                    (minutes, r2) = re_group (CHR ''M'') r1;
                    (seconds, r3) = re_group (CHR ''S'') r2
                in Inr (PInt (group_or_0 hours * 3600 + group_or_0 minutes * 60
                              + group_or_0 seconds))))
      | _ \<Rightarrow> Inl TypeError)"

section \<open>Field values\<close>

text \<open>
  \<^verbatim>\<open>min(x, self.max_videos)\<close> under Python 2, which orders values of different types:
  None is below everything, numbers (a bool is the number 0 or 1) are below every other
  type. \<^verbatim>\<open>min(a, b)\<close> keeps \<open>a\<close> unless \<open>b < a\<close>.
\<close>

fun int_less_py2 :: "int \<Rightarrow> pyval \<Rightarrow> bool" where
  "int_less_py2 m PNone = False"
| "int_less_py2 m (PBool b) = (m < (if b then 1 else 0))"
| "int_less_py2 m (PInt n) = (m < n)"
| "int_less_py2 m (PStr s) = True"
| "int_less_py2 m (PList xs) = True"
| "int_less_py2 m (PDict kvs) = True"
| "int_less_py2 m (PRef a) = True"

definition py_min :: "pyval \<Rightarrow> int \<Rightarrow> pyval" where
  "py_min a m = (if int_less_py2 m a then PInt m else a)"

datatype cls = Video | Playlist

text \<open>\<^verbatim>\<open>self.max_videos\<close>: an attribute of the class Playlist only.\<close>

definition max_videos_of :: "int \<Rightarrow> cls \<Rightarrow> exn + int" where
  "max_videos_of mv c = (case c of Playlist \<Rightarrow> Inr mv | Video \<Rightarrow> Inl AttributeError)"

text \<open>
  The list comprehension of lines 189 to 193: the url of every entry of the thumbnail
  dictionary whose key is medium or high, in the dictionary's order.
\<close>

fun thumbnail_urls :: "(string \<times> pyval) list \<Rightarrow> exn + pyval list" where
  "thumbnail_urls [] = Inr []"
| "thumbnail_urls ((key, v) # kvs) =
     (if key \<in> set [''medium'', ''high'']
      then bind_exn (subscript v ''url'') (\<lambda>u. bind_exn (thumbnail_urls kvs) (\<lambda>us. Inr (u # us)))
      else thumbnail_urls kvs)"

text \<open>
  The \<^verbatim>\<open>if not item ... elif k == ...\<close> chain of \<^verbatim>\<open>_set_api_data\<close> (lines 171 to
  193): the value for field \<open>k\<close>. The chain has no final \<^verbatim>\<open>else\<close>: for any other field
  name the local \<^verbatim>\<open>val\<close> keeps what an earlier round of the loop left in it (\<open>val\<close>, None
  when it was never assigned).
\<close>

definition field_value :: "int \<Rightarrow> cls \<Rightarrow> string \<Rightarrow> pyval \<Rightarrow> pyval option \<Rightarrow> exn + pyval" where
  "field_value mv c k item val =
     (if falsy item then Inr PNone
      else if k = ''title'' then
        bind_exn (subscript item ''snippet'') (\<lambda>s. subscript s ''title'')
      else if k = ''channel'' then
        bind_exn (subscript item ''snippet'') (\<lambda>s. subscript s ''channelTitle'')
      else if k = ''length'' then
        bind_exn (subscript item ''contentDetails'') (\<lambda>cd.
        bind_exn (subscript cd ''duration'') parse_duration)
      else if k = ''video_count'' then
        bind_exn (subscript item ''contentDetails'') (\<lambda>cd.
        bind_exn (subscript cd ''itemCount'') (\<lambda>n.
        bind_exn (max_videos_of mv c) (\<lambda>m. Inr (py_min n m))))
      else if k = ''thumbnails'' then
        bind_exn (subscript item ''snippet'') (\<lambda>s.
        bind_exn (subscript s ''thumbnails'') (\<lambda>t.
        bind_exn (dict_items t) (\<lambda>kvs.
        bind_exn (thumbnail_urls kvs) (\<lambda>us. Inr (PList us)))))
      else (case val of None \<Rightarrow> Inl UnboundLocalError | Some v \<Rightarrow> Inr v))"

section \<open>The duration format, as the specification words it\<close>

text \<open>
  The specification speaks of duration strings of the form \<^verbatim>\<open>PT#H#M#S\<close> in which any
  of the three components may be missing. \<open>duration_string h m s\<close> writes such a string:
  a component that is present is its number in decimal followed by its letter.
\<close>

fun decimal :: "nat \<Rightarrow> string" where
  "decimal n =
     (if n < 10 then [char_of (48 + n)]
      else decimal (n div 10) @ [char_of (48 + n mod 10)])"

declare decimal.simps [simp del]

definition component :: "nat option \<Rightarrow> char \<Rightarrow> string" where
  "component g letter = (case g of None \<Rightarrow> [] | Some n \<Rightarrow> decimal n @ [letter])"

definition duration_string :: "nat option \<Rightarrow> nat option \<Rightarrow> nat option \<Rightarrow> string" where
  "duration_string h m s =
     ''PT'' @ component h (CHR ''H'') @ component m (CHR ''M'') @ component s (CHR ''S'')"

definition count_of :: "nat option \<Rightarrow> int" where
  "count_of g = (case g of None \<Rightarrow> 0 | Some n \<Rightarrow> int n)"

section \<open>Futures\<close>

text \<open>
  Modelled from the spec: \<^verbatim>\<open>pykka.ThreadingFuture\<close>, the future class of a library that
  is not among the source files. The specification (4.2) describes it as a
  single-assignment cell: created unset, \<^verbatim>\<open>set\<close> assigns exactly once (a second
  \<^verbatim>\<open>set\<close> is an error, here \<open>QueueFull\<close>), \<^verbatim>\<open>get\<close> returns the value once it is set
  and blocks before (\<open>None\<close>), and the set state can be asked without blocking. The
  source asks for that state with \<^verbatim>\<open>not future._queue.empty()\<close>.
\<close>

datatype future = Pending | Resolved pyval

fun is_set :: "future \<Rightarrow> bool" where
  "is_set Pending = False"
| "is_set (Resolved v) = True"

fun future_set :: "future \<Rightarrow> pyval \<Rightarrow> exn + future" where
  "future_set Pending v = Inr (Resolved v)"
| "future_set (Resolved w) v = Inl QueueFull"


section \<open>The thread pool\<close>

text \<open>
  The class \<^verbatim>\<open>ThreadPool\<close>: the counter \<open>threads_active\<close>, the list \<open>jobs\<close>, and the
  threads that \<^verbatim>\<open>run\<close> has started and that have not left \<^verbatim>\<open>worker\<close> yet
  (\<open>workers\<close>). A thread is either at the top of its loop, about to take the lock
  (\<open>None\<close>), or outside the lock executing the job it popped (\<open>Some job\<close>). Everything
  \<^verbatim>\<open>run\<close> and \<^verbatim>\<open>worker\<close> do to the counter and the list happens while they hold
  \<^verbatim>\<open>ThreadPool.lock\<close>, so each locked section is one atomic step.
\<close>

record 'j pool =
  threads_active :: int
  jobs :: "'j list"
  workers :: "'j option list"

definition threads_max :: int where
  "threads_max = 2"

definition pool_init :: "'j pool" where
  "pool_init = \<lparr>threads_active = 0, jobs = [], workers = []\<rparr>"

text \<open>\<^verbatim>\<open>ThreadPool.run(f, args)\<close>, lines 631 to 642.\<close>

definition run :: "'j \<Rightarrow> 'j pool \<Rightarrow> 'j pool" where
  "run j p =
     (let p1 = p\<lparr>jobs := jobs p @ [j]\<rparr>
      in if threads_active p1 < threads_max
         then p1\<lparr>workers := workers p1 @ [None], threads_active := threads_active p1 + 1\<rparr>
         else p1)"





section \<open>Entities and the state of the program\<close>

text \<open>
  An instance of \<^verbatim>\<open>Video\<close> or \<^verbatim>\<open>Playlist\<close>: its class, its \<^verbatim>\<open>id\<close>, and the
  futures its \<^verbatim>\<open>__dict__\<close> holds under the names \<^verbatim>\<open>'_' + field\<close>.
\<close>

record entry =
  cls :: cls
  ident :: string
  attrs :: "string \<rightharpoonup> future"

text \<open>
  The jobs handed to the pool: the closure \<^verbatim>\<open>job\<close> of \<^verbatim>\<open>Video.load_info\<close> and of
  \<^verbatim>\<open>Playlist.load_info\<close> with its sublist, and the closure of \<^verbatim>\<open>Playlist.videos\<close>
  with its playlist.
\<close>

datatype job = VideoInfoJob "nat list" | PlaylistInfoJob "nat list" | VideosJob nat

text \<open>
  The remote collaborators (\<^verbatim>\<open>API\<close> or \<^verbatim>\<open>scrAPI\<close>, whichever \<^verbatim>\<open>api_enabled\<close>
  selects) answer over the network, so they are parameters of the model: each call
  either raises or returns a value. The first argument is the number of remote calls made
  before, so that the same request may be answered differently at different times.
\<close>

record remote =
  list_videos :: "nat \<Rightarrow> string list \<Rightarrow> exn + pyval"
  list_playlists :: "nat \<Rightarrow> string list \<Rightarrow> exn + pyval"
  list_playlistitems :: "nat \<Rightarrow> string \<Rightarrow> pyval \<Rightarrow> int \<Rightarrow> exn + pyval"

datatype call =
    ListVideos "string list"
  | ListPlaylists "string list"
  | ListPlaylistItems string pyval int

text \<open>
  The state: the objects by reference, the next free reference, the cache behind
  \<^verbatim>\<open>Entry.get\<close>, the thread pool, the remote calls made so far, and the class
  attribute \<^verbatim>\<open>Playlist.max_videos\<close>.
\<close>

record world =
  heap :: "nat \<Rightarrow> entry"
  next_ref :: nat
  cache :: "((cls \<times> string) \<times> nat) list"
  pool :: "job pool"
  calls :: "call list"
  max_videos :: int

definition fut :: "world \<Rightarrow> nat \<Rightarrow> string \<Rightarrow> future option" where
  "fut st a name = attrs (heap st a) name"

definition submit_job :: "job \<Rightarrow> world \<Rightarrow> world" where
  "submit_job j st = st\<lparr>pool := run j (pool st)\<rparr>"

section \<open>Entry.get and its cache\<close>

text \<open>
  Modelled from the spec: \<^verbatim>\<open>repoze.lru.lru_cache\<close>, the decorator of \<^verbatim>\<open>Entry.get\<close>
  (line 85), which belongs to a library that is not among the source files. The
  specification (3) describes a mapping from ID to entity bounded to a number of live
  entries, with one LRU-style eviction policy for the whole process. The cache is keyed
  by the arguments of the call, the class and the id; a hit returns the stored object and
  makes it the most recent, a miss runs the body of \<^verbatim>\<open>get\<close> (a new object with that
  id), stores the result as the most recent and drops what lies beyond the capacity.
\<close>

definition cache_max_len :: nat where
  "cache_max_len = 400"

definition Entry_get :: "cls \<Rightarrow> string \<Rightarrow> world \<Rightarrow> world \<times> nat" where
  "Entry_get c i st =
     (case map_of (cache st) (c, i) of
        Some a \<Rightarrow>
          (st\<lparr>cache := ((c, i), a) # filter (\<lambda>e. fst e \<noteq> (c, i)) (cache st)\<rparr>, a)
      | None \<Rightarrow>
          (let a = next_ref st;
               obj = \<lparr>cls = c, ident = i, attrs = Map.empty\<rparr>
           in (st\<lparr>heap := (heap st)(a := obj), next_ref := Suc a,
                   cache := take cache_max_len (((c, i), a) # cache st)\<rparr>, a)))"

text \<open>A run of calls of \<^verbatim>\<open>Video.get\<close> and \<^verbatim>\<open>Playlist.get\<close>, with the objects returned.\<close>

fun gets :: "(cls \<times> string) list \<Rightarrow> world \<Rightarrow> world \<times> nat list" where
  "gets [] st = (st, [])"
| "gets ((c, i) # ks) st =
     (let (st1, a) = Entry_get c i st; (st2, as) = gets ks st1 in (st2, a # as))"

text \<open>The objects the cache holds.\<close>

definition resident :: "world \<Rightarrow> nat set" where
  "resident st = snd ` set (cache st)"

section \<open>Entry.\_add\_futures and Entry.\_set\_api\_data\<close>

text \<open>The inner function \<^verbatim>\<open>add\<close> of \<^verbatim>\<open>_add_futures\<close> (lines 138 to 144) on one object.\<close>

fun add_loop :: "string list \<Rightarrow> entry \<Rightarrow> bool \<Rightarrow> entry \<times> bool" where
  "add_loop [] obj added = (obj, added)"
| "add_loop (k # ks) obj added =
     (if attrs obj (CHR ''_'' # k) = None
      then add_loop ks (obj\<lparr>attrs := (attrs obj)(CHR ''_'' # k \<mapsto> Pending)\<rparr>) True
      else add_loop ks obj added)"

text \<open>
  \<^verbatim>\<open>filter(add, list)\<close>: \<^verbatim>\<open>add\<close> runs on the objects in order, changing them, and the
  objects for which it returned True stay.
\<close>

fun add_futures :: "world \<Rightarrow> nat list \<Rightarrow> string list \<Rightarrow> world \<times> nat list" where
  "add_futures st [] flds = (st, [])"
| "add_futures st (a # as) flds =
     (let (obj, added) = add_loop flds (heap st a) False;
          (st2, rest) = add_futures (st\<lparr>heap := (heap st)(a := obj)\<rparr>) as flds
      in (st2, if added then a # rest else rest))"

text \<open>
  The loop of \<^verbatim>\<open>_set_api_data\<close> (lines 162 to 195) on one object. \<open>val\<close> is the local
  of that name as the rounds before left it. The result is the object as the loop leaves
  it and the exception that ended the loop, if one did.
\<close>

fun set_api_data_loop ::
  "int \<Rightarrow> pyval \<Rightarrow> string list \<Rightarrow> entry \<Rightarrow> pyval option \<Rightarrow> entry \<times> exn option" where
  "set_api_data_loop mv item [] obj val = (obj, None)"
| "set_api_data_loop mv item (k # ks) obj val =
     (let uk = CHR ''_'' # k;
          future = (case attrs obj uk of None \<Rightarrow> Pending | Some f \<Rightarrow> f);
          obj1 = obj\<lparr>attrs := (attrs obj)(uk \<mapsto> future)\<rparr>
      in if is_set future then set_api_data_loop mv item ks obj1 val
         else
           (case field_value mv (cls obj) k item val of
              Inl e \<Rightarrow> (obj1, Some e)
            | Inr v \<Rightarrow>
                (case future_set future v of
                   Inl e \<Rightarrow> (obj1, Some e)
                 | Inr f \<Rightarrow>
                     set_api_data_loop mv item ks (obj1\<lparr>attrs := (attrs obj1)(uk \<mapsto> f)\<rparr>)
                       (Some v))))"

definition set_api_data :: "world \<Rightarrow> nat \<Rightarrow> string list \<Rightarrow> pyval \<Rightarrow> world \<times> exn option" where
  "set_api_data st a flds item =
     (let (obj, e) = set_api_data_loop (max_videos st) item flds (heap st a) None
      in (st\<lparr>heap := (heap st)(a := obj)\<rparr>, e))"

section \<open>load\_info and its batch jobs\<close>

text \<open>
  \<^verbatim>\<open>for i in range(0, len(list), 50): sublist = list[i:i+50]\<close> (lines 224 to 225 and
  309 to 310): the sublists in the order of the loop.
\<close>

definition batches :: "'a list \<Rightarrow> 'a list list" where
  "batches xs =
     map (\<lambda>i. take 50 (drop i xs)) (map (\<lambda>j. 50 * j) [0 ..< (length xs + 49) div 50])"

definition video_fields :: "string list" where
  "video_fields = [''title'', ''length'', ''channel'']"

definition playlist_fields :: "string list" where
  "playlist_fields = [''title'', ''video_count'', ''thumbnails'', ''channel'']"

text \<open>\<^verbatim>\<open>Video.load_info\<close> (lines 204 to 226) and \<^verbatim>\<open>Playlist.load_info\<close> (290 to 311).\<close>

definition Video_load_info :: "world \<Rightarrow> nat list \<Rightarrow> world" where
  "Video_load_info st xs =
     (let (st1, ys) = add_futures st xs video_fields
      in foldl (\<lambda>s sublist. submit_job (VideoInfoJob sublist) s) st1 (batches ys))"

definition Playlist_load_info :: "world \<Rightarrow> nat list \<Rightarrow> world" where
  "Playlist_load_info st xs =
     (let (st1, ys) = add_futures st xs playlist_fields
      in foldl (\<lambda>s sublist. submit_job (PlaylistInfoJob sublist) s) st1 (batches ys))"

text \<open>
  \<^verbatim>\<open>{item['id']: item for item in data['items']}\<close>: the pairs of key and item in the
  order they are stored; a list or a dictionary is not hashable and cannot be a key.
  \<^verbatim>\<open>dict.get(id)\<close> finds the item stored last under the id, or None.
\<close>

fun hashable :: "pyval \<Rightarrow> bool" where
  "hashable (PList xs) = False"
| "hashable (PDict kvs) = False"
| "hashable _ = True"

fun items_dict :: "pyval list \<Rightarrow> exn + (pyval \<times> pyval) list" where
  "items_dict [] = Inr []"
| "items_dict (item # items) =
     bind_exn (subscript item ''id'') (\<lambda>k.
       if hashable k then bind_exn (items_dict items) (\<lambda>d. Inr ((k, item) # d))
       else Inl TypeError)"

definition lookup_item :: "(pyval \<times> pyval) list \<Rightarrow> string \<Rightarrow> pyval" where
  "lookup_item d i = (case map_of (rev d) (PStr i) of None \<Rightarrow> PNone | Some item \<Rightarrow> item)"

text \<open>
  The \<^verbatim>\<open>try\<close> block of a batch job (lines 209 to 217 and 295 to 302) from the reply of
  the remote call on: any exception leaves the empty dictionary.
\<close>

definition reply_dict :: "exn + pyval \<Rightarrow> (pyval \<times> pyval) list" where
  "reply_dict reply =
     (case bind_exn reply (\<lambda>data.
             bind_exn (subscript data ''items'') (\<lambda>its.
             bind_exn (py_iter its) items_dict)) of
        Inl e \<Rightarrow> []
      | Inr d \<Rightarrow> d)"

text \<open>
  \<^verbatim>\<open>for video in sublist: video._set_api_data(fields, dict.get(video.id))\<close>: an exception
  of \<^verbatim>\<open>_set_api_data\<close> ends the loop and the job.
\<close>

fun set_all ::
  "world \<Rightarrow> nat list \<Rightarrow> string list \<Rightarrow> (pyval \<times> pyval) list \<Rightarrow> world \<times> exn option" where
  "set_all st [] flds d = (st, None)"
| "set_all st (a # as) flds d =
     (case set_api_data st a flds (lookup_item d (ident (heap st a))) of
        (st1, Some e) \<Rightarrow> (st1, Some e)
      | (st1, None) \<Rightarrow> set_all st1 as flds d)"

definition video_info_job :: "remote \<Rightarrow> world \<Rightarrow> nat list \<Rightarrow> world \<times> exn option" where
  "video_info_job R st sublist =
     (let ids = map (\<lambda>a. ident (heap st a)) sublist;
          reply = list_videos R (length (calls st)) ids;
          st1 = st\<lparr>calls := calls st @ [ListVideos ids]\<rparr>
      in set_all st1 sublist video_fields (reply_dict reply))"

definition playlist_info_job :: "remote \<Rightarrow> world \<Rightarrow> nat list \<Rightarrow> world \<times> exn option" where
  "playlist_info_job R st sublist =
     (let ids = map (\<lambda>a. ident (heap st a)) sublist;
          reply = list_playlists R (length (calls st)) ids;
          st1 = st\<lparr>calls := calls st @ [ListPlaylists ids]\<rparr>
      in set_all st1 sublist playlist_fields (reply_dict reply))"

section \<open>Video.thumbnails\<close>

text \<open>
  The decorator \<^verbatim>\<open>async_property\<close> (lines 38 to 46): the decorated function runs when
  the object has no attribute \<^verbatim>\<open>'_' + name\<close> yet, and the attribute is returned
  (KeyError when the function did not create it).
\<close>

definition async_property ::
  "string \<Rightarrow> (world \<Rightarrow> nat \<Rightarrow> world) \<Rightarrow> world \<Rightarrow> nat \<Rightarrow> world \<times> (exn + future)" where
  "async_property name func st self =
     (let st1 = (if attrs (heap st self) (CHR ''_'' # name) = None then func st self else st)
      in (st1, case attrs (heap st1 self) (CHR ''_'' # name) of
                 None \<Rightarrow> Inl KeyError
               | Some f \<Rightarrow> Inr f))"

text \<open>
  The body of \<^verbatim>\<open>Video.thumbnails\<close> (lines 235 to 239): a new future, set at once to the
  two formatted strings.
\<close>

definition thumbnail_list :: "string \<Rightarrow> pyval" where
  "thumbnail_list i =
     PList (map (\<lambda>type. PStr (''https://i.ytimg.com/vi/'' @ i @ ''/'' @ type @ ''.jpg''))
              [''mqdefault'', ''hqdefault''])"

definition thumbnails_body :: "world \<Rightarrow> nat \<Rightarrow> world" where
  "thumbnails_body st self =
     (let obj = heap st self;
          f = (case future_set Pending (thumbnail_list (ident obj)) of
                 Inl e \<Rightarrow> Pending
               | Inr f \<Rightarrow> f)
      in st\<lparr>heap := (heap st)(self := obj\<lparr>attrs := (attrs obj)(''_thumbnails'' \<mapsto> f)\<rparr>)\<rparr>)"

definition Video_thumbnails :: "world \<Rightarrow> nat \<Rightarrow> world \<times> (exn + future)" where
  "Video_thumbnails st self = async_property ''thumbnails'' thumbnails_body st self"

section \<open>Playlist.videos\<close>

text \<open>
  \<^verbatim>\<open>item['snippet']['resourceId']['videoId']\<close> (line 337), and the inner loop of the
  job (lines 335 to 339): every item of the page becomes the cached video of its id, with
  the title set from the item. \<open>myvideos\<close> is the list so far.
  Ids are strings; an id of another type is outside the model. An exception ends the
  loop with the state as it is then.
\<close>

definition item_video_id :: "pyval \<Rightarrow> exn + pyval" where
  "item_video_id item =
     bind_exn (subscript item ''snippet'') (\<lambda>s.
     bind_exn (subscript s ''resourceId'') (\<lambda>r. subscript r ''videoId''))"

fun page_videos :: "world \<Rightarrow> pyval list \<Rightarrow> nat list \<Rightarrow> world \<times> (exn + nat list)" where
  "page_videos st [] myvideos = (st, Inr myvideos)"
| "page_videos st (item # items) myvideos =
     (case item_video_id item of
        Inl e \<Rightarrow> (st, Inl e)
      | Inr (PStr i) \<Rightarrow>
          (let (st1, video) = Entry_get Video i st
           in case set_api_data st1 video [''title''] item of
                (st2, Some e) \<Rightarrow> (st2, Inl e)
              | (st2, None) \<Rightarrow> page_videos st2 items (myvideos @ [video]))
      | Inr _ \<Rightarrow> (st, Inl Unmodelled))"

text \<open>\<^verbatim>\<open>for item in data['items']\<close>: the items the loop goes through.\<close>

definition page_items :: "pyval \<Rightarrow> exn + pyval list" where
  "page_items data = bind_exn (subscript data ''items'') py_iter"

text \<open>
  The \<^verbatim>\<open>while\<close> loop of the job (lines 324 to 343). Nothing bounds the number of
  rounds (a remote that keeps answering with a page token and no items keeps the loop
  going), so the loop takes fuel, one unit a round, and \<open>None\<close> says the fuel ran out.
  Otherwise the result is the state and either the exception that left the job or
  \<open>all_videos\<close> as the loop ended. An exception of the remote call is caught and
  breaks the loop; everything after the \<^verbatim>\<open>try\<close> block is not protected.
\<close>

fun videos_loop ::
  "remote \<Rightarrow> nat \<Rightarrow> nat \<Rightarrow> world \<Rightarrow> pyval \<Rightarrow> nat list \<Rightarrow> (world \<times> (exn + nat list)) option" where
  "videos_loop R 0 self st page all_videos = None"
| "videos_loop R (Suc fuel) self st page all_videos =
     (case max_videos_of (max_videos st) (cls (heap st self)) of
        Inl e \<Rightarrow> (if page \<noteq> PNone then Some (st, Inl e) else Some (st, Inr all_videos))
      | Inr mv \<Rightarrow>
          if page \<noteq> PNone \<and> int (length all_videos) < mv then
            (let max_results = min (mv - int (length all_videos)) 50;
                 reply = list_playlistitems R (length (calls st)) (ident (heap st self)) page
                           max_results;
                 st1 = st\<lparr>calls := calls st
                            @ [ListPlaylistItems (ident (heap st self)) page max_results]\<rparr>
             in case reply of
                  Inl e \<Rightarrow> Some (st1, Inr all_videos)
                | Inr data \<Rightarrow>
                    (case dict_get data ''nextPageToken'' of
                       Inl e \<Rightarrow> Some (st1, Inl e)
                     | Inr token \<Rightarrow>
                         (case page_items data of
                            Inl e \<Rightarrow> Some (st1, Inl e)
                          | Inr items \<Rightarrow>
                              (case page_videos st1 items [] of
                                 (st2, Inl e) \<Rightarrow> Some (st2, Inl e)
                               | (st2, Inr myvideos) \<Rightarrow>
                                   videos_loop R fuel self (Video_load_info st2 myvideos)
                                     (if falsy token then PNone else token)
                                     (all_videos @ myvideos)))))
          else Some (st, Inr all_videos))"

text \<open>
  The job of \<^verbatim>\<open>Playlist.videos\<close> (lines 321 to 345): the loop, then
  \<^verbatim>\<open>self._videos.set(all_videos)\<close>.
\<close>

definition videos_job :: "remote \<Rightarrow> nat \<Rightarrow> world \<Rightarrow> nat \<Rightarrow> (world \<times> exn option) option" where
  "videos_job R fuel st self =
     (case videos_loop R fuel self st (PStr []) [] of
        None \<Rightarrow> None
      | Some (st1, Inl e) \<Rightarrow> Some (st1, Some e)
      | Some (st1, Inr all_videos) \<Rightarrow>
          (case attrs (heap st1 self) ''_videos'' of
             None \<Rightarrow> Some (st1, Some AttributeError)
           | Some future \<Rightarrow>
               (case future_set future (PList (map PRef all_videos)) of
                  Inl e \<Rightarrow> Some (st1, Some e)
                | Inr f \<Rightarrow>
                    Some (st1\<lparr>heap := (heap st1)(self :=
                            (heap st1 self)\<lparr>attrs := (attrs (heap st1 self))(''_videos'' \<mapsto> f)\<rparr>)\<rparr>,
                          None))))"

text \<open>
  The body of the property \<^verbatim>\<open>Playlist.videos\<close> (lines 319 and 347): a new future and
  the job handed to the pool.
\<close>

definition videos_body :: "world \<Rightarrow> nat \<Rightarrow> world" where
  "videos_body st self =
     submit_job (VideosJob self)
       (st\<lparr>heap := (heap st)(self :=
          (heap st self)\<lparr>attrs := (attrs (heap st self))(''_videos'' \<mapsto> Pending)\<rparr>)\<rparr>)"

definition Playlist_videos :: "world \<Rightarrow> nat \<Rightarrow> world \<times> (exn + future)" where
  "Playlist_videos st self = async_property ''videos'' videos_body st self"

text \<open>A page of playlist items as the collaborators build it, and what it holds.\<close>

definition playlist_item :: "string \<Rightarrow> pyval \<Rightarrow> pyval" where
  "playlist_item i title =
     PDict [(''snippet'', PDict [(''resourceId'', PDict [(''videoId'', PStr i)]),
                                (''title'', title)])]"

definition playlist_page :: "pyval \<Rightarrow> (string \<times> pyval) list \<Rightarrow> pyval" where
  "playlist_page token its =
     PDict [(''nextPageToken'', token),
            (''items'', PList (map (\<lambda>(i, title). playlist_item i title) its))]"

section \<open>Initial state and vocabulary of the statements\<close>

text \<open>
  The program as it starts: no object yet, an empty cache, an idle pool, no remote call
  made. References not handed out yet hold a blank object.
\<close>

definition world_init :: "int \<Rightarrow> world" where
  "world_init mv =
     \<lparr>heap = (\<lambda>a. \<lparr>cls = Video, ident = [], attrs = Map.empty\<rparr>), next_ref = 0, cache = [],
      pool = pool_init, calls = [], max_videos = mv\<rparr>"

text \<open>A remote whose every call raises.\<close>

definition failing_remote :: remote where
  "failing_remote =
     \<lparr>list_videos = (\<lambda>n ids. Inl RemoteError),
      list_playlists = (\<lambda>n ids. Inl RemoteError),
      list_playlistitems = (\<lambda>n i page m. Inl RemoteError)\<rparr>"

text \<open>A remote whose batch lookups always return \<open>data\<close>.\<close>

definition constant_remote :: "pyval \<Rightarrow> remote" where
  "constant_remote data =
     \<lparr>list_videos = (\<lambda>n ids. Inr data),
      list_playlists = (\<lambda>n ids. Inr data),
      list_playlistitems = (\<lambda>n i page m. Inl RemoteError)\<rparr>"

text \<open>An item of a \<^verbatim>\<open>list_videos\<close> reply; \<open>details\<close> is its \<^verbatim>\<open>contentDetails\<close>, if any.\<close>

definition video_item :: "string \<Rightarrow> string \<Rightarrow> string \<Rightarrow> pyval option \<Rightarrow> pyval" where
  "video_item i title channel details =
     PDict ([(''id'', PStr i),
             (''snippet'', PDict [(''title'', PStr title), (''channelTitle'', PStr channel)])]
            @ (case details of None \<Rightarrow> [] | Some d \<Rightarrow> [(''contentDetails'', d)]))"

text \<open>
  What a failed batch leaves in a field's future: the value it held if it was set before,
  None otherwise.
\<close>

definition settled :: "future option \<Rightarrow> future" where
  "settled f = (case f of Some (Resolved v) \<Rightarrow> Resolved v | _ \<Rightarrow> Resolved PNone)"

section \<open>States used as examples\<close>

text \<open>
  The state after one page of a playlist held the video \<^verbatim>\<open>v\<close> with title \<^verbatim>\<open>T\<close>: the
  video was fetched from the cache (it is object 0), its title was set from the page
  (line 338), and \<^verbatim>\<open>Video.load_info\<close> was called on it (line 343), which queued the
  batch job for the sublist \<open>[0]\<close>.
\<close>

definition paged_video_world :: world where
  "paged_video_world =
     Video_load_info
       (fst (set_api_data (fst (Entry_get Video ''v'' (world_init 60))) 0 [''title'']
               (playlist_item ''v'' (PStr ''T''))))
       [0]"

text \<open>
  The state after \<^verbatim>\<open>Video.get('a')\<close>, \<^verbatim>\<open>Video.get('b')\<close> (objects 0 and 1) and
  \<^verbatim>\<open>Video.load_info\<close> on the two, and a \<^verbatim>\<open>list_videos\<close> reply in which the item of
  \<^verbatim>\<open>a\<close> has no \<^verbatim>\<open>contentDetails\<close> while the item of \<^verbatim>\<open>b\<close> is complete.
\<close>

definition two_video_world :: world where
  "two_video_world = Video_load_info (fst (gets [(Video, ''a''), (Video, ''b'')] (world_init 60))) [0, 1]"

definition partial_reply :: pyval where
  "partial_reply =
     PDict [(''items'', PList
       [video_item ''a'' ''A'' ''CA'' None,
        video_item ''b'' ''B'' ''CB'' (Some (PDict [(''duration'', PStr ''PT5M'')]))])]"

text \<open>A reply whose only item has \<^verbatim>\<open>contentDetails\<close> but no duration in it.\<close>

definition no_duration_reply :: pyval where
  "no_duration_reply = PDict [(''items'', PList [video_item ''v'' ''T'' ''C'' (Some (PDict []))])]"

section \<open>Vocabulary for the thread pool\<close>




section \<open>Vocabulary for load\_info\<close>

text \<open>
  An object is missing a field when its \<^verbatim>\<open>__dict__\<close> has no future for it. The list
  \<^verbatim>\<open>_add_futures\<close> returns is described with the first occurrence of every object in
  the list it is given.
\<close>

definition missing :: "world \<Rightarrow> string list \<Rightarrow> nat \<Rightarrow> bool" where
  "missing st flds a = (\<exists>k \<in> set flds. attrs (heap st a) (CHR ''_'' # k) = None)"

fun first_occurrences :: "'a list \<Rightarrow> 'a list" where
  "first_occurrences [] = []"
| "first_occurrences (x # xs) = x # filter (\<lambda>y. y \<noteq> x) (first_occurrences xs)"

section \<open>Vocabulary for the cache and the thumbnails\<close>

text \<open>
  The state is well formed when the cache holds no key twice and at most
  \<open>cache_max_len\<close> entries, and every object it holds has been handed out and carries the
  class and the id it is stored under.
\<close>

definition wf_world :: "world \<Rightarrow> bool" where
  "wf_world st =
     (distinct (map fst (cache st)) \<and> length (cache st) \<le> cache_max_len \<and>
      list_all (\<lambda>e. snd e < next_ref st \<and> cls (heap st (snd e)) = fst (fst e) \<and>
                     ident (heap st (snd e)) = snd (fst e)) (cache st))"

text \<open>
  The \<^verbatim>\<open>_thumbnails\<close> attribute of a video is its own when it is not there yet or holds
  what \<^verbatim>\<open>Video.thumbnails\<close> puts there.
\<close>

definition own_thumbnails :: "world \<Rightarrow> nat \<Rightarrow> bool" where
  "own_thumbnails st a =
     (case attrs (heap st a) ''_thumbnails'' of
        None \<Rightarrow> True
      | Some f \<Rightarrow> f = Resolved (thumbnail_list (ident (heap st a))))"

section \<open>Vocabulary for Playlist.videos\<close>

text \<open>
  An item of a page is good when the job can process it: it yields a string as video id
  and it has a title. A page is good when it is a dictionary whose items can be gone
  through and are all good. \<open>next_token\<close> is
  \<^verbatim>\<open>data.get('nextPageToken') or None\<close>, and \<open>page_ids\<close> are the video ids of a page in
  order.
\<close>

definition good_item :: "pyval \<Rightarrow> bool" where
  "good_item item =
     (case item_video_id item of
        Inr (PStr i) \<Rightarrow>
          (case field_value 0 Video ''title'' item None of Inr t \<Rightarrow> True | Inl e \<Rightarrow> False)
      | _ \<Rightarrow> False)"

definition good_page :: "pyval \<Rightarrow> bool" where
  "good_page data =
     (case dict_get data ''nextPageToken'' of
        Inr token \<Rightarrow>
          (case page_items data of Inr items \<Rightarrow> list_all good_item items | Inl e \<Rightarrow> False)
      | Inl e \<Rightarrow> False)"

definition next_token :: "pyval \<Rightarrow> pyval" where
  "next_token data =
     (case dict_get data ''nextPageToken'' of
        Inr token \<Rightarrow> if falsy token then PNone else token
      | Inl e \<Rightarrow> PNone)"

definition item_ids :: "pyval list \<Rightarrow> string list" where
  "item_ids items =
     concat (map (\<lambda>item. case item_video_id item of Inr (PStr i) \<Rightarrow> [i] | _ \<Rightarrow> []) items)"

definition page_ids :: "pyval \<Rightarrow> string list" where
  "page_ids data = (case page_items data of Inr items \<Rightarrow> item_ids items | Inl e \<Rightarrow> [])"


text \<open>
  A remote that answers the first \<^verbatim>\<open>list_playlistitems\<close> calls with the given pages,
  one a call, each cut to the requested number of items, and raises from then on.
\<close>

definition paging_remote :: "(pyval \<times> (string \<times> pyval) list) list \<Rightarrow> remote" where
  "paging_remote pages =
     \<lparr>list_videos = (\<lambda>n ids. Inl RemoteError),
      list_playlists = (\<lambda>n ids. Inl RemoteError),
      list_playlistitems = (\<lambda>n i page m.
         if n < length pages
         then Inr (playlist_page (fst (pages ! n)) (take (nat m) (snd (pages ! n))))
         else Inl RemoteError)\<rparr>"

text \<open>
  The state after \<^verbatim>\<open>Playlist.get('p')\<close> (object 0) and a first access of its
  \<^verbatim>\<open>videos\<close>, with \<open>mv\<close> for \<^verbatim>\<open>max_videos\<close>: the future is there, unset, and the
  job is queued.
\<close>

definition playlist_world :: "int \<Rightarrow> world" where
  "playlist_world mv = fst (Playlist_videos (fst (Entry_get Playlist ''p'' (world_init mv))) 0)"



definition videos_future :: "remote \<Rightarrow> nat \<Rightarrow> world \<Rightarrow> nat \<Rightarrow> future option" where
  "videos_future R fuel st self =
     (case videos_job R fuel st self of
        Some (st', None) \<Rightarrow> fut st' self ''_videos''
      | _ \<Rightarrow> None)"

text \<open>Three pages of a playlist, of two, one and one items; the last has no page token.\<close>

definition three_pages :: "(pyval \<times> (string \<times> pyval) list) list" where
  "three_pages =
     [(PStr ''t1'', [(''a'', PStr ''A''), (''b'', PStr ''B'')]),
      (PStr ''t2'', [(''c'', PStr ''C'')]),
      (PNone, [(''d'', PStr ''D'')])]"

text \<open>
  \<open>serves R n pid mv token count pages\<close>: the remote answers the calls the job of the
  playlist \<open>pid\<close> makes, from call number \<open>n\<close> on, with the given pages, one a call, and
  raises at the call after the last of them. \<open>token\<close> and \<open>count\<close> are the page token
  and the number of videos the job has when it makes call \<open>n\<close>, which fix the arguments of
  the call (lines 326 to 330).
\<close>

fun serves :: "remote \<Rightarrow> nat \<Rightarrow> string \<Rightarrow> int \<Rightarrow> pyval \<Rightarrow> nat \<Rightarrow> pyval list \<Rightarrow> bool" where
  "serves R n pid mv token count [] =
     (case list_playlistitems R n pid token (min (mv - int count) 50) of
        Inl e \<Rightarrow> True
      | Inr data \<Rightarrow> False)"
| "serves R n pid mv token count (p # ps) =
     (list_playlistitems R n pid token (min (mv - int count) 50) = Inr p \<and>
      serves R (Suc n) pid mv (next_token p) (count + length (page_ids p)) ps)"

text \<open>
  \<open>extends st st'\<close>: \<open>st'\<close> is well formed and keeps what \<open>st\<close> has: the objects handed
  out in \<open>st\<close> are still there with their class and id, and the playlists among them are
  unchanged.
\<close>

definition extends :: "world \<Rightarrow> world \<Rightarrow> bool" where
  "extends st st' =
     (wf_world st' \<and> next_ref st \<le> next_ref st' \<and>
      (\<forall>a < next_ref st.
         cls (heap st' a) = cls (heap st a) \<and> ident (heap st' a) = ident (heap st a) \<and>
         (cls (heap st a) = Playlist \<longrightarrow> heap st' a = heap st a)))"

text \<open>
  The first page of \<open>three_pages\<close> as the remote returns it, and a remote that returns
  it at the first call and raises at the second.
\<close>

definition first_page :: pyval where
  "first_page = playlist_page (PStr ''t1'') [(''a'', PStr ''A''), (''b'', PStr ''B'')]"

definition one_page_remote :: remote where
  "one_page_remote = paging_remote (take 1 three_pages)"
section \<open>Duration strings: what the parser computes\<close>

lemma is_digit_char_of: "(d::nat) < 10 \<Longrightarrow> is_digit (char_of (48 + d))"
  by (simp add: is_digit_def)

lemma decimal_digits: "\<forall>c \<in> set (decimal n). is_digit c"
proof (induction n rule: decimal.induct)
  case (1 n)
  show ?case
  proof (cases "n < 10")
    case True
    then show ?thesis by (subst decimal.simps) (simp add: is_digit_char_of)
  next
    case False
    with 1 show ?thesis by (subst decimal.simps) (simp add: is_digit_char_of)
  qed
qed

lemma decimal_nonempty: "decimal n \<noteq> []"
  by (subst decimal.simps) simp

lemma int_of_digits_snoc: "int_of_digits (ds @ [c]) = 10 * int_of_digits ds + digit_value c"
  by (simp add: int_of_digits_def)

lemma digit_value_char_of: "d < 10 \<Longrightarrow> digit_value (char_of (48 + d)) = int d"
  by (simp add: digit_value_def)

lemma int_of_digits_decimal: "int_of_digits (decimal n) = int n"
proof (induction n rule: decimal.induct)
  case (1 n)
  show ?case
  proof (cases "n < 10")
    case True
    then show ?thesis
      by (subst decimal.simps) (simp add: int_of_digits_def digit_value_char_of)
  next
    case False
    have "int_of_digits (decimal n) =
            10 * int_of_digits (decimal (n div 10)) + digit_value (char_of (48 + n mod 10))"
      using False by (subst decimal.simps) (simp add: int_of_digits_snoc)
    also have "\<dots> = 10 * int (n div 10) + int (n mod 10)"
      using 1 False by (simp add: digit_value_char_of)
    also have "\<dots> = int n" by presburger
    finally show ?thesis .
  qed
qed

lemma re_group_match:
  assumes "ds \<noteq> []" "\<forall>c \<in> set ds. is_digit c" "\<not> is_digit letter"
  shows "re_group letter (ds @ letter # rest) = (Some ds, rest)"
  using assms by (simp add: re_group_def takeWhile_tail dropWhile_append3)

lemma re_group_other:
  assumes "\<forall>c \<in> set ds. is_digit c" "\<not> is_digit c'" "c' \<noteq> letter"
  shows "re_group letter (ds @ c' # rest) = (None, ds @ c' # rest)"
  using assms by (simp add: re_group_def takeWhile_tail dropWhile_append3)

lemma re_group_end: "re_group letter [] = (None, [])"
  by (simp add: re_group_def)

lemma group_or_0_decimal: "group_or_0 (Some (decimal n)) = int n"
  by (simp add: group_or_0_def decimal_nonempty int_of_digits_decimal)

lemma group_or_0_None: "group_or_0 None = 0"
  by (simp add: group_or_0_def)

lemma letters_not_digits:
  "\<not> is_digit (CHR ''H'')" "\<not> is_digit (CHR ''M'')" "\<not> is_digit (CHR ''S'')"
  by (simp_all add: is_digit_def)

text \<open>
  Every duration string \<^verbatim>\<open>PT#H#M#S\<close>, whichever of its components are present, is read
  as hours * 3600 + minutes * 60 + seconds, a missing component counting as 0.
\<close>

lemma length_of_duration_string:
  "parse_duration (PStr (duration_string h m s)) =
     Inr (PInt (count_of h * 3600 + count_of m * 60 + count_of s))"
  by (cases h; cases m; cases s)
     (simp_all add: duration_string_def component_def count_of_def parse_duration_def
        re_group_match re_group_other re_group_end decimal_digits decimal_nonempty
        letters_not_digits group_or_0_decimal group_or_0_None)

lemma duration_examples:
  "parse_duration (PStr ''PT1H2M10S'') = Inr (PInt 3730)"
  "parse_duration (PStr ''PT5M'') = Inr (PInt 300)"
  "parse_duration (PStr ''PT10S'') = Inr (PInt 10)"
  by (simp_all add: parse_duration_def re_group_def is_digit_def group_or_0_def
        int_of_digits_def digit_value_def)

text \<open>With the whole item absent, every field is given None, the length among them.\<close>

lemma field_value_absent_item: "falsy item \<Longrightarrow> field_value mv c k item val = Inr PNone"
  by (simp add: field_value_def)

section \<open>Entry.\_set\_api\_data: futures that are set stay as they are\<close>


lemma set_api_data_loop_same_object:
  "cls (fst (set_api_data_loop mv item ks obj val)) = cls obj \<and>
   ident (fst (set_api_data_loop mv item ks obj val)) = ident obj"
proof (induction ks arbitrary: obj val)
  case Nil
  then show ?case by simp
next
  case (Cons k ks)
  show ?case
    using Cons.IH by (simp add: Let_def split: sum.splits)
qed

lemma set_api_data_unfold:
  "fst (set_api_data st b flds item)
     = st\<lparr>heap := (heap st)(b := fst (set_api_data_loop (max_videos st) item flds (heap st b) None))\<rparr>"
  "snd (set_api_data st b flds item)
     = snd (set_api_data_loop (max_videos st) item flds (heap st b) None)"
  by (simp_all add: set_api_data_def split_beta)


lemma set_api_data_other:
  "a \<noteq> b \<Longrightarrow> heap (fst (set_api_data st b flds item)) a = heap st a"
  by (simp add: set_api_data_def split: prod.splits)

lemma set_api_data_frame:
  "calls (fst (set_api_data st b flds item)) = calls st"
  "pool (fst (set_api_data st b flds item)) = pool st"
  "cache (fst (set_api_data st b flds item)) = cache st"
  "next_ref (fst (set_api_data st b flds item)) = next_ref st"
  "max_videos (fst (set_api_data st b flds item)) = max_videos st"
  "cls (heap (fst (set_api_data st b flds item)) a) = cls (heap st a)"
  "ident (heap (fst (set_api_data st b flds item)) a) = ident (heap st a)"
  using set_api_data_loop_same_object [of "max_videos st" item flds "heap st b" None]
  by (auto simp: set_api_data_def split: prod.splits)

section \<open>A batch whose lookup fails\<close>

lemma set_api_data_loop_absent:
  assumes "falsy item"
  shows "snd (set_api_data_loop mv item ks obj val) = None \<and>
         (\<forall>n. attrs (fst (set_api_data_loop mv item ks obj val)) n =
                (if n \<in> (#) CHR ''_'' ` set ks then Some (settled (attrs obj n))
                 else attrs obj n))"
proof (induction ks arbitrary: obj val)
  case Nil
  then show ?case by simp
next
  case (Cons k ks)
  let ?uk = "CHR ''_'' # k"
  show ?case
  proof (cases "attrs obj ?uk")
    case None
    let ?obj2 = "obj\<lparr>attrs := (attrs obj)(?uk \<mapsto> Resolved PNone)\<rparr>"
    have step: "set_api_data_loop mv item (k # ks) obj val =
                set_api_data_loop mv item ks ?obj2 (Some PNone)"
      using None assms by (simp add: field_value_def)
    show ?thesis
      unfolding step using Cons.IH [of ?obj2 "Some PNone"] None
      by (auto simp: settled_def)
  next
    case (Some f)
    show ?thesis
    proof (cases f)
      case Pending
      let ?obj2 = "obj\<lparr>attrs := (attrs obj)(?uk \<mapsto> Resolved PNone)\<rparr>"
      have step: "set_api_data_loop mv item (k # ks) obj val =
                  set_api_data_loop mv item ks ?obj2 (Some PNone)"
        using Some Pending assms by (simp add: field_value_def)
      show ?thesis
        unfolding step using Cons.IH [of ?obj2 "Some PNone"] Some Pending
        by (auto simp: settled_def)
    next
      case (Resolved w)
      let ?obj1 = "obj\<lparr>attrs := (attrs obj)(?uk \<mapsto> Resolved w)\<rparr>"
      have step: "set_api_data_loop mv item (k # ks) obj val =
                  set_api_data_loop mv item ks ?obj1 val"
        using Some Resolved by simp
      show ?thesis
        unfolding step using Cons.IH [of ?obj1 val] Some Resolved
        by (auto simp: settled_def)
    qed
  qed
qed

lemma set_api_data_absent:
  assumes "falsy item"
  shows "snd (set_api_data st b flds item) = None"
    and "fut (fst (set_api_data st b flds item)) a n =
           (if a = b \<and> n \<in> (#) CHR ''_'' ` set flds then Some (settled (fut st a n))
            else fut st a n)"
  using set_api_data_loop_absent [OF assms, of "max_videos st" flds "heap st b" None]
  by (auto simp: set_api_data_def fut_def split: prod.splits)

lemma settled_idem: "settled (Some (settled f)) = settled f"
  by (simp add: settled_def split: option.splits future.splits)

lemma set_all_absent:
  "snd (set_all st as flds []) = None \<and>
   (\<forall>a n. fut (fst (set_all st as flds [])) a n =
            (if a \<in> set as \<and> n \<in> (#) CHR ''_'' ` set flds then Some (settled (fut st a n))
             else fut st a n))"
proof (induction as arbitrary: st)
  case Nil
  then show ?case by simp
next
  case (Cons b as)
  let ?st1 = "fst (set_api_data st b flds PNone)"
  have none: "snd (set_api_data st b flds PNone) = None"
    by (rule set_api_data_absent) simp
  have step: "set_all st (b # as) flds [] = set_all ?st1 as flds []"
    using none by (cases "set_api_data st b flds PNone") (auto simp: lookup_item_def)
  have first: "fut ?st1 a n =
                 (if a = b \<and> n \<in> (#) CHR ''_'' ` set flds then Some (settled (fut st a n))
                  else fut st a n)" for a n
    by (rule set_api_data_absent) simp
  show ?case
    unfolding step using Cons.IH [of ?st1] by (auto simp: first settled_idem)
qed

lemma fut_calls_update [simp]: "fut (st\<lparr>calls := cs\<rparr>) a n = fut st a n"
  by (simp add: fut_def)

lemma reply_dict_raise [simp]: "reply_dict (Inl e) = []"
  by (simp add: reply_dict_def bind_exn_def)

lemmas example_defs =
  video_info_job_def playlist_info_job_def Video_load_info_def Playlist_load_info_def
  set_api_data_def Entry_get_def world_init_def failing_remote_def constant_remote_def
  playlist_item_def video_item_def fut_def video_fields_def playlist_fields_def batches_def
  submit_job_def run_def field_value_def bind_exn_def lookup_item_def reply_dict_def
  Let_def pool_init_def threads_max_def paged_video_world_def two_video_world_def
  partial_reply_def no_duration_reply_def settled_def cache_max_len_def

text \<open>
  C1, as the code has it. When the remote batch lookup of a batch job raises
  (\<^verbatim>\<open>list_videos\<close> for a job of \<^verbatim>\<open>Video.load_info\<close>, \<^verbatim>\<open>list_playlists\<close> for a job of
  \<^verbatim>\<open>Playlist.load_info\<close>), the job ends without an exception and, for every entity of the
  batch and every requested field, the field's future is set afterwards: to None when it
  was not set before the job, and to the value it already held when it was. So no
  requested future is left unset, and exactly those not set before hold the absent
  marker.
\<close>

theorem failed_batch_settles_every_field:
  "(list_videos R (length (calls st)) (map (\<lambda>a. ident (heap st a)) sublist) = Inl e \<longrightarrow>
      snd (video_info_job R st sublist) = None \<and>
      (\<forall>a \<in> set sublist. \<forall>k \<in> set video_fields.
         fut (fst (video_info_job R st sublist)) a (CHR ''_'' # k)
           = Some (settled (fut st a (CHR ''_'' # k))))) \<and>
   (list_playlists R (length (calls st)) (map (\<lambda>a. ident (heap st a)) sublist) = Inl e \<longrightarrow>
      snd (playlist_info_job R st sublist) = None \<and>
      (\<forall>a \<in> set sublist. \<forall>k \<in> set playlist_fields.
         fut (fst (playlist_info_job R st sublist)) a (CHR ''_'' # k)
           = Some (settled (fut st a (CHR ''_'' # k)))))"
proof (intro conjI impI)
  assume fail: "list_videos R (length (calls st)) (map (\<lambda>a. ident (heap st a)) sublist) = Inl e"
  let ?st1 = "st\<lparr>calls := calls st @ [ListVideos (map (\<lambda>a. ident (heap st a)) sublist)]\<rparr>"
  have job: "video_info_job R st sublist = set_all ?st1 sublist video_fields []"
    using fail by (simp add: video_info_job_def Let_def)
  show "snd (video_info_job R st sublist) = None"
    unfolding job using set_all_absent [of ?st1 sublist video_fields] by simp
  show "\<forall>a \<in> set sublist. \<forall>k \<in> set video_fields.
         fut (fst (video_info_job R st sublist)) a (CHR ''_'' # k)
           = Some (settled (fut st a (CHR ''_'' # k)))"
    unfolding job using set_all_absent [of ?st1 sublist video_fields] by simp
next
  assume fail: "list_playlists R (length (calls st)) (map (\<lambda>a. ident (heap st a)) sublist) = Inl e"
  let ?st1 = "st\<lparr>calls := calls st @ [ListPlaylists (map (\<lambda>a. ident (heap st a)) sublist)]\<rparr>"
  have job: "playlist_info_job R st sublist = set_all ?st1 sublist playlist_fields []"
    using fail by (simp add: playlist_info_job_def Let_def)
  show "snd (playlist_info_job R st sublist) = None"
    unfolding job using set_all_absent [of ?st1 sublist playlist_fields] by simp
  show "\<forall>a \<in> set sublist. \<forall>k \<in> set playlist_fields.
         fut (fst (playlist_info_job R st sublist)) a (CHR ''_'' # k)
           = Some (settled (fut st a (CHR ''_'' # k)))"
    unfolding job using set_all_absent [of ?st1 sublist playlist_fields] by simp
qed

text \<open>
  The theorem at the batch \<open>[0]\<close> of \<open>paged_video_world\<close> with a remote that raises: the
  length and the channel, not set before, become None and the title keeps \<^verbatim>\<open>T\<close>.
\<close>

theorem failed_batch_settles_every_field_witness:
  "list_videos failing_remote (length (calls paged_video_world))
     (map (\<lambda>a. ident (heap paged_video_world a)) [0]) = Inl RemoteError \<and>
   list_playlists failing_remote (length (calls paged_video_world))
     (map (\<lambda>a. ident (heap paged_video_world a)) [0]) = Inl RemoteError \<and>
   snd (video_info_job failing_remote paged_video_world [0]) = None \<and>
   fut (fst (video_info_job failing_remote paged_video_world [0])) 0 ''_length''
     = Some (Resolved PNone) \<and>
   fut (fst (video_info_job failing_remote paged_video_world [0])) 0 ''_channel''
     = Some (Resolved PNone) \<and>
   fut (fst (video_info_job failing_remote paged_video_world [0])) 0 ''_title''
     = Some (Resolved (PStr ''T'')) \<and>
   snd (playlist_info_job failing_remote paged_video_world [0]) = None \<and>
   fut (fst (playlist_info_job failing_remote paged_video_world [0])) 0 ''_video_count''
     = Some (Resolved PNone)"
proof -
  have raises:
    "list_videos failing_remote (length (calls paged_video_world))
       (map (\<lambda>a. ident (heap paged_video_world a)) [0]) = Inl RemoteError"
    "list_playlists failing_remote (length (calls paged_video_world))
       (map (\<lambda>a. ident (heap paged_video_world a)) [0]) = Inl RemoteError"
    by (simp_all add: failing_remote_def)
  have before:
    "fut paged_video_world 0 ''_length'' = Some Pending"
    "fut paged_video_world 0 ''_channel'' = Some Pending"
    "fut paged_video_world 0 ''_title'' = Some (Resolved (PStr ''T''))"
    "fut paged_video_world 0 ''_video_count'' = None"
    by (simp_all add: example_defs)
  show ?thesis
    using failed_batch_settles_every_field
            [of failing_remote paged_video_world "[0]" RemoteError] raises before
    by (simp add: video_fields_def playlist_fields_def settled_def)
qed

text \<open>
  C1 as it is stated fails: in \<open>paged_video_world\<close> the queued batch job is the one for
  \<open>[0]\<close>, its lookup raises, the title is one of the requested fields, and after the job
  the title future holds \<^verbatim>\<open>T\<close>, not None.
\<close>

theorem failed_batch_counterexample:
  "jobs (pool paged_video_world) = [VideoInfoJob [0]] \<and>
   list_videos failing_remote (length (calls paged_video_world))
     (map (\<lambda>a. ident (heap paged_video_world a)) [0]) = Inl RemoteError \<and>
   ''title'' \<in> set video_fields \<and>
   fut (fst (video_info_job failing_remote paged_video_world [0])) 0 ''_title''
     \<noteq> Some (Resolved PNone)"
  by (simp add: example_defs)



text \<open>
  C2 on the code. The batch \<open>[0, 1]\<close> of \<open>two_video_world\<close> with the reply
  \<open>partial_reply\<close>: the item of video \<^verbatim>\<open>a\<close> is present and lacks
  \<^verbatim>\<open>contentDetails\<close>. \<^verbatim>\<open>_set_api_data\<close> sets the title of \<^verbatim>\<open>a\<close> and raises KeyError
  at its length; the exception leaves the job, so the length and the channel of \<^verbatim>\<open>a\<close>
  and every field of \<^verbatim>\<open>b\<close>, whose item is complete, stay unset.
\<close>

theorem missing_subfield_aborts_batch:
  "snd (video_info_job (constant_remote partial_reply) two_video_world [0, 1]) = Some KeyError \<and>
   map (fut (fst (video_info_job (constant_remote partial_reply) two_video_world [0, 1])) 0)
     [''_title'', ''_length'', ''_channel'']
     = [Some (Resolved (PStr ''A'')), Some Pending, Some Pending] \<and>
   map (fut (fst (video_info_job (constant_remote partial_reply) two_video_world [0, 1])) 1)
     [''_title'', ''_length'', ''_channel'']
     = [Some Pending, Some Pending, Some Pending]"
  by (simp add: example_defs)

text \<open>
  C5 on the code. The parser is right on every string of the form (lemma
  \<open>length_of_duration_string\<close>) and an absent item gives None (lemma
  \<open>field_value_absent_item\<close>), but an item that is present and has no duration, or a
  duration that is None, makes \<^verbatim>\<open>_set_api_data\<close> raise: the length future stays unset
  instead of holding the absent marker.
\<close>

theorem absent_duration_raises:
  "field_value 60 Video ''length'' (video_item ''v'' ''T'' ''C'' (Some (PDict []))) None
     = Inl KeyError \<and>
   field_value 60 Video ''length''
     (video_item ''v'' ''T'' ''C'' (Some (PDict [(''duration'', PNone)]))) None = Inl TypeError \<and>
   snd (video_info_job (constant_remote no_duration_reply) paged_video_world [0]) = Some KeyError \<and>
   fut (fst (video_info_job (constant_remote no_duration_reply) paged_video_world [0])) 0 ''_length''
     = Some Pending"
  by (simp add: example_defs parse_duration_def)

section \<open>load\_info: the filtered list and its batches\<close>

lemma add_loop_result:
  "snd (add_loop ks obj added) = (added \<or> (\<exists>k \<in> set ks. attrs obj (CHR ''_'' # k) = None)) \<and>
   (\<forall>n. attrs (fst (add_loop ks obj added)) n =
          (if n \<in> (#) CHR ''_'' ` set ks \<and> attrs obj n = None then Some Pending
           else attrs obj n)) \<and>
   cls (fst (add_loop ks obj added)) = cls obj \<and>
   ident (fst (add_loop ks obj added)) = ident obj"
proof (induction ks arbitrary: obj added)
  case Nil
  then show ?case by simp
next
  case (Cons k ks)
  show ?case
  proof (cases "attrs obj (CHR ''_'' # k) = None")
    case True
    let ?obj1 = "obj\<lparr>attrs := (attrs obj)(CHR ''_'' # k \<mapsto> Pending)\<rparr>"
    have step: "add_loop (k # ks) obj added = add_loop ks ?obj1 True"
      using True by simp
    show ?thesis
      unfolding step using Cons.IH [of ?obj1 True] True by auto
  next
    case False
    have step: "add_loop (k # ks) obj added = add_loop ks obj added"
      using False by auto
    show ?thesis
      unfolding step using Cons.IH [of obj added] False by auto
  qed
qed

lemma missing_after_add:
  assumes "add_loop flds (heap st a) False = (obj, added)"
  shows "missing (st\<lparr>heap := (heap st)(a := obj)\<rparr>) flds b = (b \<noteq> a \<and> missing st flds b)"
proof -
  have "attrs obj n = (if n \<in> (#) CHR ''_'' ` set flds \<and> attrs (heap st a) n = None
                       then Some Pending else attrs (heap st a) n)" for n
    using add_loop_result [of flds "heap st a" False] assms by simp
  then show ?thesis
    by (auto simp: missing_def)
qed

lemma add_futures_filtered:
  "snd (add_futures st xs flds) = filter (missing st flds) (first_occurrences xs)"
proof (induction xs arbitrary: st)
  case Nil
  then show ?case by simp
next
  case (Cons a xs)
  obtain obj added where ad: "add_loop flds (heap st a) False = (obj, added)"
    by (cases "add_loop flds (heap st a) False")
  let ?st1 = "st\<lparr>heap := (heap st)(a := obj)\<rparr>"
  have added: "added = missing st flds a"
    using add_loop_result [of flds "heap st a" False] ad by (simp add: missing_def)
  have rest: "snd (add_futures ?st1 xs flds)
                = filter (\<lambda>b. b \<noteq> a \<and> missing st flds b) (first_occurrences xs)"
    using Cons.IH [of ?st1] missing_after_add [OF ad] by simp
  have "snd (add_futures st (a # xs) flds)
          = (if added then a # snd (add_futures ?st1 xs flds) else snd (add_futures ?st1 xs flds))"
    using ad by (simp split: prod.splits)
  then show ?case
    using added rest by (simp add: conj_commute)
qed

lemma first_occurrences_distinct: "distinct xs \<Longrightarrow> first_occurrences xs = xs"
proof (induction xs)
  case Nil
  then show ?case by simp
next
  case (Cons x xs)
  then have "filter (\<lambda>y. y \<noteq> x) xs = xs"
    by (auto intro: filter_True)
  with Cons show ?case by simp
qed

lemma add_futures_frame:
  "pool (fst (add_futures st xs flds)) = pool st \<and>
   calls (fst (add_futures st xs flds)) = calls st \<and>
   cache (fst (add_futures st xs flds)) = cache st \<and>
   next_ref (fst (add_futures st xs flds)) = next_ref st \<and>
   max_videos (fst (add_futures st xs flds)) = max_videos st"
proof (induction xs arbitrary: st)
  case Nil
  then show ?case by simp
next
  case (Cons a xs)
  obtain obj added where ad: "add_loop flds (heap st a) False = (obj, added)"
    by (cases "add_loop flds (heap st a) False")
  show ?case
    using Cons.IH [of "st\<lparr>heap := (heap st)(a := obj)\<rparr>"] ad
    by (cases "add_futures (st\<lparr>heap := (heap st)(a := obj)\<rparr>) xs flds") simp
qed

lemma jobs_run: "jobs (run j p) = jobs p @ [j]"
  by (simp add: run_def Let_def)

lemma submit_all_jobs:
  "jobs (pool (foldl (\<lambda>s b. submit_job (J b) s) st bs)) = jobs (pool st) @ map J bs"
  by (induction bs arbitrary: st) (simp_all add: submit_job_def jobs_run)

lemma submit_all_frame:
  "heap (foldl (\<lambda>s b. submit_job (J b) s) st bs) = heap st \<and>
   calls (foldl (\<lambda>s b. submit_job (J b) s) st bs) = calls st \<and>
   cache (foldl (\<lambda>s b. submit_job (J b) s) st bs) = cache st \<and>
   next_ref (foldl (\<lambda>s b. submit_job (J b) s) st bs) = next_ref st \<and>
   max_videos (foldl (\<lambda>s b. submit_job (J b) s) st bs) = max_videos st"
  by (induction bs arbitrary: st) (simp_all add: submit_job_def)

lemma concat_slices:
  "concat (map (\<lambda>j. take k (drop (k * j) xs)) [0 ..< n]) = take (k * n) xs"
proof (induction n)
  case 0
  then show ?case by simp
next
  case (Suc n)
  have "take (k * n + k) xs = take (k * n) xs @ take k (drop (k * n) xs)"
    by (rule take_add)
  with Suc show ?case by (simp add: add.commute)
qed

lemma ceil_50:
  "50 * ((n + 49) div 50) + (n + 49) mod 50 = n + (49::nat)" "(n + 49) mod 50 < (50::nat)"
  by simp_all

lemma concat_batches: "concat (batches xs) = xs"
proof -
  have "length xs \<le> 50 * ((length xs + 49) div 50)"
    using ceil_50 [of "length xs"] by linarith
  then show ?thesis
    unfolding batches_def map_map o_def by (simp add: concat_slices)
qed

lemma batch_sizes: "b \<in> set (batches xs) \<Longrightarrow> 0 < length b \<and> length b \<le> 50"
proof -
  assume "b \<in> set (batches xs)"
  then obtain j where j: "j < (length xs + 49) div 50" and b: "b = take 50 (drop (50 * j) xs)"
    by (auto simp: batches_def)
  from j have "50 * j < length xs"
    using ceil_50 [of "length xs"] by linarith
  with b show ?thesis by simp
qed

lemma length_batches: "length (batches xs) = (length xs + 49) div 50"
  by (simp add: batches_def)

lemma batches_120:
  assumes "length xs = 120"
  shows "map length (batches xs) = [50, 50, 20]"
proof -
  have "(length xs + 49) div 50 = Suc (Suc (Suc 0))"
    using assms by simp
  then have "[0 ..< (length xs + 49) div 50] = [0, 1, 2]"
    by (simp add: upt_rec)
  then show ?thesis
    using assms by (simp add: batches_def)
qed

lemma set_all_frame:
  "calls (fst (set_all st as flds d)) = calls st \<and>
   pool (fst (set_all st as flds d)) = pool st"
proof (induction as arbitrary: st)
  case Nil
  then show ?case by simp
next
  case (Cons a as)
  obtain st1 e where s: "set_api_data st a flds (lookup_item d (ident (heap st a))) = (st1, e)"
    by (cases "set_api_data st a flds (lookup_item d (ident (heap st a)))")
  have "calls st1 = calls st \<and> pool st1 = pool st"
    using set_api_data_frame(1,2) [of st a flds "lookup_item d (ident (heap st a))"] s by simp
  with s Cons.IH [of st1] show ?case
    by (cases e) simp_all
qed

lemma info_job_calls:
  "calls (fst (video_info_job R w b)) = calls w @ [ListVideos (map (\<lambda>a. ident (heap w a)) b)]"
  "calls (fst (playlist_info_job R w b))
     = calls w @ [ListPlaylists (map (\<lambda>a. ident (heap w a)) b)]"
  by (simp_all add: video_info_job_def playlist_info_job_def Let_def set_all_frame)

lemma load_info_jobs:
  "jobs (pool (Video_load_info st xs))
     = jobs (pool st) @ map VideoInfoJob (batches (snd (add_futures st xs video_fields)))"
  "jobs (pool (Playlist_load_info st xs))
     = jobs (pool st) @ map PlaylistInfoJob (batches (snd (add_futures st xs playlist_fields)))"
  using add_futures_frame [of st xs video_fields] add_futures_frame [of st xs playlist_fields]
  by (cases "add_futures st xs video_fields"; cases "add_futures st xs playlist_fields";
      simp add: Video_load_info_def Playlist_load_info_def submit_all_jobs)+

text \<open>
  C6. The list \<^verbatim>\<open>_add_futures\<close> returns holds, in the order of the list given to
  \<^verbatim>\<open>load_info\<close>, the objects that had no future for at least one of the requested
  fields, each once. \<^verbatim>\<open>load_info\<close> appends to the jobs of the pool one job for each
  sublist of that list, in order. The sublists, put one after the other, are the list
  itself; each has at least 1 and at most 50 elements; a list of 120 gives sublists of 50,
  50 and 20. A batch job makes exactly one remote call, the batch lookup with the ids of
  its sublist.
\<close>

theorem load_info_one_job_per_batch:
  "snd (add_futures st xs video_fields)
     = filter (missing st video_fields) (first_occurrences xs) \<and>
   snd (add_futures st xs playlist_fields)
     = filter (missing st playlist_fields) (first_occurrences xs) \<and>
   jobs (pool (Video_load_info st xs))
     = jobs (pool st) @ map VideoInfoJob (batches (snd (add_futures st xs video_fields))) \<and>
   jobs (pool (Playlist_load_info st xs))
     = jobs (pool st)
       @ map PlaylistInfoJob (batches (snd (add_futures st xs playlist_fields))) \<and>
   concat (batches ys) = ys \<and>
   (\<forall>b \<in> set (batches ys). 0 < length b \<and> length b \<le> 50) \<and>
   length (batches ys) = (length ys + 49) div 50 \<and>
   (length ys = 120 \<longrightarrow> map length (batches ys) = [50, 50, 20]) \<and>
   calls (fst (video_info_job R w b)) = calls w @ [ListVideos (map (\<lambda>a. ident (heap w a)) b)] \<and>
   calls (fst (playlist_info_job R w b))
     = calls w @ [ListPlaylists (map (\<lambda>a. ident (heap w a)) b)]"
  using batch_sizes [of _ ys]
  by (simp add: add_futures_filtered load_info_jobs concat_batches length_batches batches_120
        info_job_calls)

text \<open>
  \<^verbatim>\<open>Video.load_info\<close> on 120 objects that have no futures yet: all 120 stay after
  the filter, and the three jobs queued hold 50, 50 and 20 of them.
\<close>

theorem load_info_one_job_per_batch_witness:
  "length [0 ..< 120 :: nat] = 120 \<and>
   snd (add_futures (world_init 60) [0 ..< 120] video_fields) = [0 ..< 120] \<and>
   map length (batches [0 ..< 120 :: nat]) = [50, 50, 20] \<and>
   jobs (pool (Video_load_info (world_init 60) [0 ..< 120]))
     = map VideoInfoJob (batches [0 ..< 120]) \<and>
   batches [0 ..< 120 :: nat] = [[0 ..< 50], [50 ..< 100], [100 ..< 120]]"
proof -
  have "missing (world_init 60) video_fields a" for a
    by (auto simp: missing_def world_init_def video_fields_def)
  then have all_missing: "filter (missing (world_init 60) video_fields) zs = zs" for zs
    by simp
  have firsts: "first_occurrences [0 ..< 120 :: nat] = [0 ..< 120]"
    by (simp add: first_occurrences_distinct)
  have len: "length [0 ..< 120 :: nat] = 120"
    by simp
  have three: "[0 ..< (length [0 ..< 120 :: nat] + 49) div 50] = [0, 1, 2]"
    by (simp add: upt_rec)
  have slices: "batches [0 ..< 120 :: nat] = [[0 ..< 50], [50 ..< 100], [100 ..< 120]]"
    unfolding batches_def three by (simp add: take_upt)
  have start: "jobs (pool (world_init 60)) = []"
    by (simp add: world_init_def pool_init_def)
  show ?thesis
    using load_info_one_job_per_batch
            [of "world_init 60" "[0 ..< 120]" "[0 ..< 120]" failing_remote "world_init 60" "[]"]
          all_missing firsts len slices start
    by simp
qed

section \<open>The thread pool: the counter of active workers\<close>















section \<open>Entry.get: one object for each id while it is cached\<close>

lemma wf_world_init: "wf_world (world_init mv)"
  by (simp add: wf_world_def world_init_def)

lemma map_of_hit:
  "distinct (map fst kvs) \<Longrightarrow> (k, v) \<in> set kvs \<Longrightarrow> map_of kvs k = Some v"
  by simp

lemma length_filter_hit:
  assumes "(k, v) \<in> set kvs"
  shows "Suc (length (filter (\<lambda>e. fst e \<noteq> k) kvs)) \<le> length kvs"
proof -
  have "length (filter (\<lambda>e. fst e \<noteq> k) kvs) < length kvs"
    using assms by (intro length_filter_less [of "(k, v)"]) simp_all
  then show ?thesis by simp
qed

lemma Entry_get_hit:
  assumes "map_of (cache st) (c, i) = Some a"
  shows "Entry_get c i st
           = (st\<lparr>cache := ((c, i), a) # filter (\<lambda>e. fst e \<noteq> (c, i)) (cache st)\<rparr>, a)"
  using assms by (simp add: Entry_get_def)

lemma Entry_get_miss:
  assumes "map_of (cache st) (c, i) = None"
  shows "Entry_get c i st
           = (st\<lparr>heap := (heap st)(next_ref st := \<lparr>cls = c, ident = i, attrs = Map.empty\<rparr>),
                  next_ref := Suc (next_ref st),
                  cache := take cache_max_len (((c, i), next_ref st) # cache st)\<rparr>, next_ref st)"
  using assms by (simp add: Entry_get_def Let_def)

lemma wf_world_Entry_get:
  assumes "wf_world st"
  shows "wf_world (fst (Entry_get c i st))"
proof (cases "map_of (cache st) (c, i)")
  case None
  have keys: "(c, i) \<notin> fst ` set (cache st)"
    using None by (simp add: map_of_eq_None_iff)
  have old: "list_all (\<lambda>e. snd e < next_ref st \<and> cls (heap st (snd e)) = fst (fst e) \<and>
                     ident (heap st (snd e)) = snd (fst e)) (cache st)"
    using assms by (simp add: wf_world_def)
  let ?h = "(heap st)(next_ref st := \<lparr>cls = c, ident = i, attrs = Map.empty\<rparr>)"
  have new: "list_all (\<lambda>e. snd e < Suc (next_ref st) \<and> cls (?h (snd e)) = fst (fst e) \<and>
                     ident (?h (snd e)) = snd (fst e)) (((c, i), next_ref st) # cache st)"
    using old by (auto simp: list_all_iff)
  have "list_all (\<lambda>e. snd e < Suc (next_ref st) \<and> cls (?h (snd e)) = fst (fst e) \<and>
                     ident (?h (snd e)) = snd (fst e))
          (take cache_max_len (((c, i), next_ref st) # cache st))"
    using new unfolding list_all_iff by (meson in_set_takeD)
  moreover have "distinct (map fst (take cache_max_len (((c, i), next_ref st) # cache st)))"
    using assms keys by (simp add: wf_world_def take_map [symmetric] del: take_map)
  ultimately show ?thesis
    unfolding Entry_get_miss [OF None] by (simp add: wf_world_def)
next
  case (Some a)
  then have mem: "((c, i), a) \<in> set (cache st)"
    by (rule map_of_SomeD)
  have old: "list_all (\<lambda>e. snd e < next_ref st \<and> cls (heap st (snd e)) = fst (fst e) \<and>
                     ident (heap st (snd e)) = snd (fst e)) (cache st)"
    using assms by (simp add: wf_world_def)
  have "list_all (\<lambda>e. snd e < next_ref st \<and> cls (heap st (snd e)) = fst (fst e) \<and>
                     ident (heap st (snd e)) = snd (fst e))
          (((c, i), a) # filter (\<lambda>e. fst e \<noteq> (c, i)) (cache st))"
    using old mem by (auto simp: list_all_iff)
  moreover have "distinct (map fst (((c, i), a) # filter (\<lambda>e. fst e \<noteq> (c, i)) (cache st)))"
    using assms by (auto simp: wf_world_def distinct_map_filter)
  moreover have "length (((c, i), a) # filter (\<lambda>e. fst e \<noteq> (c, i)) (cache st)) \<le> cache_max_len"
    using assms length_filter_hit [OF mem] by (simp add: wf_world_def)
  ultimately show ?thesis
    unfolding Entry_get_hit [OF Some] by (simp add: wf_world_def)
qed

lemma Entry_get_keeps_objects:
  "next_ref st \<le> next_ref (fst (Entry_get c i st)) \<and>
   (\<forall>a < next_ref st. heap (fst (Entry_get c i st)) a = heap st a) \<and>
   pool (fst (Entry_get c i st)) = pool st \<and> calls (fst (Entry_get c i st)) = calls st \<and>
   max_videos (fst (Entry_get c i st)) = max_videos st"
  by (cases "map_of (cache st) (c, i)") (simp_all add: Entry_get_hit Entry_get_miss)

lemma gets_Cons:
  "fst (gets ((c, i) # ks) st) = fst (gets ks (fst (Entry_get c i st)))"
  "snd (gets ((c, i) # ks) st)
     = snd (Entry_get c i st) # snd (gets ks (fst (Entry_get c i st)))"
  by (simp_all add: split_beta)

lemma wf_world_gets: "wf_world st \<Longrightarrow> wf_world (fst (gets ks st))"
proof (induction ks arbitrary: st)
  case Nil
  then show ?case by simp
next
  case (Cons k ks)
  obtain c i where k: "k = (c, i)" by (cases k)
  have "wf_world (fst (Entry_get c i st))"
    using Cons.prems by (rule wf_world_Entry_get)
  then have "wf_world (fst (gets ks (fst (Entry_get c i st))))"
    by (rule Cons.IH)
  then show ?case
    unfolding k by (simp only: gets_Cons)
qed

lemma gets_keeps_objects:
  "next_ref st \<le> next_ref (fst (gets ks st)) \<and>
   (\<forall>a < next_ref st. heap (fst (gets ks st)) a = heap st a)"
proof (induction ks arbitrary: st)
  case Nil
  then show ?case by simp
next
  case (Cons k ks)
  obtain c i where k: "k = (c, i)" by (cases k)
  let ?st1 = "fst (Entry_get c i st)"
  have one: "next_ref st \<le> next_ref ?st1 \<and> (\<forall>a < next_ref st. heap ?st1 a = heap st a)"
    using Entry_get_keeps_objects [of st c i] by simp
  have rest: "next_ref ?st1 \<le> next_ref (fst (gets ks ?st1)) \<and>
              (\<forall>a < next_ref ?st1. heap (fst (gets ks ?st1)) a = heap ?st1 a)"
    by (rule Cons.IH)
  have "fst (gets (k # ks) st) = fst (gets ks ?st1)"
    unfolding k by (simp only: gets_Cons)
  with one rest show ?case
    by (metis (no_types, lifting) le_trans less_le_trans)
qed

lemma Entry_get_result:
  assumes "wf_world st"
  shows "snd (Entry_get c i st) < next_ref (fst (Entry_get c i st)) \<and>
         cls (heap (fst (Entry_get c i st)) (snd (Entry_get c i st))) = c \<and>
         ident (heap (fst (Entry_get c i st)) (snd (Entry_get c i st))) = i"
proof (cases "map_of (cache st) (c, i)")
  case None
  show ?thesis
    unfolding Entry_get_miss [OF None] by simp
next
  case (Some a)
  then have "((c, i), a) \<in> set (cache st)"
    by (rule map_of_SomeD)
  then have "a < next_ref st \<and> cls (heap st a) = c \<and> ident (heap st a) = i"
    using assms by (auto simp: wf_world_def list_all_iff)
  then show ?thesis
    unfolding Entry_get_hit [OF Some] by simp
qed

lemma resident_lookup:
  assumes "wf_world st" "a \<in> resident st"
  shows "map_of (cache st) (cls (heap st a), ident (heap st a)) = Some a"
proof -
  from assms(2) obtain k where mem: "(k, a) \<in> set (cache st)"
    by (auto simp: resident_def)
  then have "cls (heap st a) = fst k \<and> ident (heap st a) = snd k"
    using assms(1) by (auto simp: wf_world_def list_all_iff)
  then have "k = (cls (heap st a), ident (heap st a))"
    by (cases k) simp
  with mem assms(1) show ?thesis
    by (simp add: wf_world_def)
qed

lemma lookup_resident:
  "map_of (cache st) k = Some a \<Longrightarrow> a \<in> resident st"
  by (force simp: resident_def dest: map_of_SomeD)

text \<open>
  C8. From a well-formed state (the initial state is one, and \<^verbatim>\<open>get\<close> keeps it so), let
  \<^verbatim>\<open>get\<close> of a class and an id return an object, and let any run of further
  \<^verbatim>\<open>Video.get\<close> and \<^verbatim>\<open>Playlist.get\<close> calls follow. Then a new \<^verbatim>\<open>get\<close> of the same
  class and id returns that very object exactly when the object is still in the cache;
  the cache never holds a key twice, so while it is cached an id has one object of its
  class; and the cache holds at most 400 entries.
\<close>

theorem Entry_get_same_instance_while_cached:
  assumes "wf_world st"
  shows "wf_world (fst (gets ks (fst (Entry_get c i st)))) \<and>
         (snd (Entry_get c i (fst (gets ks (fst (Entry_get c i st))))) = snd (Entry_get c i st))
           = (snd (Entry_get c i st) \<in> resident (fst (gets ks (fst (Entry_get c i st))))) \<and>
         distinct (map fst (cache (fst (gets ks (fst (Entry_get c i st)))))) \<and>
         length (cache (fst (gets ks (fst (Entry_get c i st))))) \<le> 400"
proof -
  let ?st1 = "fst (Entry_get c i st)"
  let ?a = "snd (Entry_get c i st)"
  let ?st2 = "fst (gets ks ?st1)"
  have wf1: "wf_world ?st1"
    using assms by (rule wf_world_Entry_get)
  have wf2: "wf_world ?st2"
    using wf1 by (rule wf_world_gets)
  have obj1: "?a < next_ref ?st1 \<and> cls (heap ?st1 ?a) = c \<and> ident (heap ?st1 ?a) = i"
    using assms by (rule Entry_get_result)
  have obj2: "?a < next_ref ?st2 \<and> cls (heap ?st2 ?a) = c \<and> ident (heap ?st2 ?a) = i"
    using obj1 gets_keeps_objects [of ?st1 ks] by auto
  have same: "(snd (Entry_get c i ?st2) = ?a) = (?a \<in> resident ?st2)"
  proof (cases "map_of (cache ?st2) (c, i)")
    case None
    have "?a \<notin> resident ?st2"
    proof
      assume "?a \<in> resident ?st2"
      then have "map_of (cache ?st2) (cls (heap ?st2 ?a), ident (heap ?st2 ?a)) = Some ?a"
        using wf2 by (simp add: resident_lookup)
      with obj2 None show False by simp
    qed
    moreover have "snd (Entry_get c i ?st2) = next_ref ?st2"
      unfolding Entry_get_miss [OF None] by simp
    ultimately show ?thesis
      using obj2 by simp
  next
    case (Some b)
    have ret: "snd (Entry_get c i ?st2) = b"
      unfolding Entry_get_hit [OF Some] by simp
    show ?thesis
    proof (cases "b = ?a")
      case True
      with Some ret show ?thesis
        by (simp add: lookup_resident)
    next
      case False
      have "?a \<notin> resident ?st2"
      proof
        assume "?a \<in> resident ?st2"
        then have "map_of (cache ?st2) (cls (heap ?st2 ?a), ident (heap ?st2 ?a)) = Some ?a"
          using wf2 by (simp add: resident_lookup)
        with obj2 Some False show False by simp
      qed
      with ret False show ?thesis by simp
    qed
  qed
  have "distinct (map fst (cache ?st2)) \<and> length (cache ?st2) \<le> 400"
    using wf2 by (simp add: wf_world_def cache_max_len_def)
  with wf2 same show ?thesis by simp
qed

text \<open>
  \<^verbatim>\<open>Video.get('x')\<close> at the start returns object 0; after \<^verbatim>\<open>Playlist.get('x')\<close> and
  \<^verbatim>\<open>Video.get('y')\<close> the object is still cached and \<^verbatim>\<open>Video.get('x')\<close> returns it
  again, while the playlist of the same id is another object.
\<close>

theorem Entry_get_same_instance_while_cached_witness:
  "wf_world (world_init 60) \<and>
   snd (Entry_get Video ''x'' (world_init 60)) = 0 \<and>
   0 \<in> resident (fst (gets [(Playlist, ''x''), (Video, ''y'')]
                        (fst (Entry_get Video ''x'' (world_init 60))))) \<and>
   snd (Entry_get Video ''x'' (fst (gets [(Playlist, ''x''), (Video, ''y'')]
                                    (fst (Entry_get Video ''x'' (world_init 60)))))) = 0 \<and>
   snd (gets [(Playlist, ''x''), (Video, ''y'')] (fst (Entry_get Video ''x'' (world_init 60))))
     = [1, 2]"
proof -
  have first: "snd (Entry_get Video ''x'' (world_init 60)) = 0"
    by (simp add: Entry_get_def world_init_def)
  have cached: "0 \<in> resident (fst (gets [(Playlist, ''x''), (Video, ''y'')]
                        (fst (Entry_get Video ''x'' (world_init 60)))))"
    by (simp add: resident_def Entry_get_def world_init_def cache_max_len_def)
  have others: "snd (gets [(Playlist, ''x''), (Video, ''y'')]
                        (fst (Entry_get Video ''x'' (world_init 60)))) = [1, 2]"
    by (simp add: Entry_get_def world_init_def cache_max_len_def)
  show ?thesis
    using Entry_get_same_instance_while_cached
            [OF wf_world_init, of "[(Playlist, ''x''), (Video, ''y'')]" Video "''x''" 60]
          first cached others wf_world_init [of 60]
    by simp
qed

section \<open>Video.thumbnails\<close>

lemma set_api_data_loop_untouched:
  "n \<notin> (#) CHR ''_'' ` set ks \<Longrightarrow>
   attrs (fst (set_api_data_loop mv item ks obj val)) n = attrs obj n"
proof (induction ks arbitrary: obj val)
  case Nil
  then show ?case by simp
next
  case (Cons k ks)
  then have ne: "n \<noteq> CHR ''_'' # k" and rest: "n \<notin> (#) CHR ''_'' ` set ks"
    by auto
  show ?case
    using Cons.IH [OF rest] ne by (simp add: Let_def split: sum.splits)
qed

text \<open>
  Nothing the program does to a video touches its \<^verbatim>\<open>_thumbnails\<close>: a new object has
  no attribute, and \<^verbatim>\<open>_set_api_data\<close> and \<^verbatim>\<open>_add_futures\<close> with fields other than
  thumbnails (videos are given title, channel and length only) leave it as it is.
\<close>

lemma own_thumbnails_kept:
  "own_thumbnails (fst (Entry_get c i st)) (snd (Entry_get c i st)) \<or>
   snd (Entry_get c i st) \<in> resident st"
  "''thumbnails'' \<notin> set flds \<Longrightarrow>
   own_thumbnails (fst (set_api_data st b flds item)) a = own_thumbnails st a"
proof -
  show "own_thumbnails (fst (Entry_get c i st)) (snd (Entry_get c i st)) \<or>
        snd (Entry_get c i st) \<in> resident st"
  proof (cases "map_of (cache st) (c, i)")
    case None
    show ?thesis
      unfolding Entry_get_miss [OF None] by (simp add: own_thumbnails_def)
  next
    case (Some a)
    then show ?thesis
      unfolding Entry_get_hit [OF Some] by (simp add: lookup_resident)
  qed
next
  assume "''thumbnails'' \<notin> set flds"
  then have "''_thumbnails'' \<notin> (#) CHR ''_'' ` set flds"
    by auto
  then have "attrs (fst (set_api_data_loop (max_videos st) item flds (heap st b) None))
               ''_thumbnails'' = attrs (heap st b) ''_thumbnails''"
    by (rule set_api_data_loop_untouched)
  moreover have "ident (fst (set_api_data_loop (max_videos st) item flds (heap st b) None))
                   = ident (heap st b)"
    by (simp add: set_api_data_loop_same_object)
  ultimately show "own_thumbnails (fst (set_api_data st b flds item)) a = own_thumbnails st a"
    by (auto simp: own_thumbnails_def set_api_data_unfold split: option.splits)
qed

text \<open>
  C10. For a video whose \<^verbatim>\<open>_thumbnails\<close> attribute is its own (absent before the
  first access; nothing else creates it), accessing \<^verbatim>\<open>thumbnails\<close> returns a future
  that is set to the list of the two URLs built from the id of the video, the
  \<^verbatim>\<open>mqdefault\<close> one first and the \<^verbatim>\<open>hqdefault\<close> one second. The access makes no
  remote call and hands no job to the pool, and it changes nothing of the state but that
  attribute.
\<close>

theorem Video_thumbnails_ready:
  assumes "own_thumbnails st self"
  shows "snd (Video_thumbnails st self)
           = Inr (Resolved (PList [PStr (''https://i.ytimg.com/vi/'' @ ident (heap st self)
                                         @ ''/mqdefault.jpg''),
                                   PStr (''https://i.ytimg.com/vi/'' @ ident (heap st self)
                                         @ ''/hqdefault.jpg'')])) \<and>
         calls (fst (Video_thumbnails st self)) = calls st \<and>
         pool (fst (Video_thumbnails st self)) = pool st \<and>
         cache (fst (Video_thumbnails st self)) = cache st \<and>
         (\<forall>a n. (a, n) \<noteq> (self, ''_thumbnails'') \<longrightarrow>
                fut (fst (Video_thumbnails st self)) a n = fut st a n) \<and>
         own_thumbnails (fst (Video_thumbnails st self)) self"
proof (cases "attrs (heap st self) ''_thumbnails''")
  case None
  then show ?thesis
    by (simp add: Video_thumbnails_def async_property_def thumbnails_body_def Let_def
          thumbnail_list_def own_thumbnails_def fut_def)
next
  case (Some f)
  with assms have "f = Resolved (thumbnail_list (ident (heap st self)))"
    by (simp add: own_thumbnails_def)
  with Some show ?thesis
    by (simp add: Video_thumbnails_def async_property_def thumbnail_list_def
          own_thumbnails_def)
qed

text \<open>
  The first access and a second one, for the video \<^verbatim>\<open>7uj0hOIm2kY\<close> fetched at the start.
\<close>

theorem Video_thumbnails_ready_witness:
  "own_thumbnails (fst (Entry_get Video ''7uj0hOIm2kY'' (world_init 60))) 0 \<and>
   snd (Video_thumbnails (fst (Entry_get Video ''7uj0hOIm2kY'' (world_init 60))) 0)
     = Inr (Resolved (PList [PStr ''https://i.ytimg.com/vi/7uj0hOIm2kY/mqdefault.jpg'',
                             PStr ''https://i.ytimg.com/vi/7uj0hOIm2kY/hqdefault.jpg''])) \<and>
   pool (fst (Video_thumbnails (fst (Entry_get Video ''7uj0hOIm2kY'' (world_init 60))) 0))
     = pool_init \<and>
   calls (fst (Video_thumbnails (fst (Entry_get Video ''7uj0hOIm2kY'' (world_init 60))) 0)) = [] \<and>
   snd (Video_thumbnails
          (fst (Video_thumbnails (fst (Entry_get Video ''7uj0hOIm2kY'' (world_init 60))) 0)) 0)
     = Inr (Resolved (PList [PStr ''https://i.ytimg.com/vi/7uj0hOIm2kY/mqdefault.jpg'',
                             PStr ''https://i.ytimg.com/vi/7uj0hOIm2kY/hqdefault.jpg'']))"
proof -
  let ?st = "fst (Entry_get Video ''7uj0hOIm2kY'' (world_init 60))"
  have own: "own_thumbnails ?st 0"
    by (simp add: own_thumbnails_def Entry_get_def world_init_def)
  have start: "ident (heap ?st 0) = ''7uj0hOIm2kY''" "pool ?st = pool_init" "calls ?st = []"
    by (simp_all add: Entry_get_def world_init_def)
  have first: "snd (Video_thumbnails ?st 0)
     = Inr (Resolved (PList [PStr ''https://i.ytimg.com/vi/7uj0hOIm2kY/mqdefault.jpg'',
                             PStr ''https://i.ytimg.com/vi/7uj0hOIm2kY/hqdefault.jpg''])) \<and>
     pool (fst (Video_thumbnails ?st 0)) = pool_init \<and>
     calls (fst (Video_thumbnails ?st 0)) = [] \<and>
     own_thumbnails (fst (Video_thumbnails ?st 0)) 0"
    using Video_thumbnails_ready [OF own] start by simp
  have again: "ident (heap (fst (Video_thumbnails ?st 0)) 0) = ''7uj0hOIm2kY''"
    by (simp add: Video_thumbnails_def async_property_def thumbnails_body_def Entry_get_def
          world_init_def Let_def)
  have second: "snd (Video_thumbnails (fst (Video_thumbnails ?st 0)) 0)
     = Inr (Resolved (PList [PStr ''https://i.ytimg.com/vi/7uj0hOIm2kY/mqdefault.jpg'',
                             PStr ''https://i.ytimg.com/vi/7uj0hOIm2kY/hqdefault.jpg'']))"
    using Video_thumbnails_ready [of "fst (Video_thumbnails ?st 0)" 0] first again by simp
  show ?thesis
    using own first second by simp
qed

section \<open>Playlist.videos: frames of the steps of the job\<close>

lemma field_value_title:
  "field_value mv c ''title'' item val = field_value 0 Video ''title'' item None"
  by (simp add: field_value_def)

lemma Entry_get_Video_frame:
  "max_videos (fst (Entry_get c i st)) = max_videos st"
  "calls (fst (Entry_get c i st)) = calls st"
  "pool (fst (Entry_get c i st)) = pool st"
  using Entry_get_keeps_objects [of st c i] by simp_all

lemma page_videos_step:
  assumes "item_video_id item = Inr (PStr i)"
  shows "page_videos st (item # items) my =
           (case snd (set_api_data (fst (Entry_get Video i st)) (snd (Entry_get Video i st))
                        [''title''] item) of
              Some e \<Rightarrow>
                (fst (set_api_data (fst (Entry_get Video i st)) (snd (Entry_get Video i st))
                        [''title''] item), Inl e)
            | None \<Rightarrow>
                page_videos
                  (fst (set_api_data (fst (Entry_get Video i st)) (snd (Entry_get Video i st))
                          [''title''] item))
                  items (my @ [snd (Entry_get Video i st)]))"
  using assms by (simp add: split_beta)

lemma page_videos_stop:
  assumes "\<forall>i. item_video_id item \<noteq> Inr (PStr i)"
  shows "fst (page_videos st (item # items) my) = st \<and>
         (\<exists>e. snd (page_videos st (item # items) my) = Inl e)"
proof (cases "item_video_id item")
  case (Inl e)
  then show ?thesis by simp
next
  case (Inr v)
  with assms show ?thesis by (cases v) simp_all
qed

lemma page_videos_any:
  "max_videos (fst (page_videos st items my)) = max_videos st \<and>
   calls (fst (page_videos st items my)) = calls st \<and>
   (\<forall>my'. snd (page_videos st items my) = Inr my' \<longrightarrow>
           length my' = length my + length items)"
proof (induction items arbitrary: st my)
  case Nil
  then show ?case by simp
next
  case (Cons item items)
  show ?case
  proof (cases "\<exists>i. item_video_id item = Inr (PStr i)")
    case False
    then have "fst (page_videos st (item # items) my) = st \<and>
               (\<exists>e. snd (page_videos st (item # items) my) = Inl e)"
      by (intro page_videos_stop) simp
    then show ?thesis by auto
  next
    case True
    then obtain i where i: "item_video_id item = Inr (PStr i)"
      by blast
    let ?st1 = "fst (Entry_get Video i st)"
    let ?video = "snd (Entry_get Video i st)"
    let ?st2 = "fst (set_api_data ?st1 ?video [''title''] item)"
    have frame: "max_videos ?st2 = max_videos st \<and> calls ?st2 = calls st"
      by (simp add: set_api_data_frame Entry_get_Video_frame)
    show ?thesis
    proof (cases "snd (set_api_data ?st1 ?video [''title''] item)")
      case None
      have step: "page_videos st (item # items) my = page_videos ?st2 items (my @ [?video])"
        unfolding page_videos_step [OF i] using None by simp
      show ?thesis
        unfolding step using Cons.IH [of ?st2 "my @ [?video]"] frame by simp
    next
      case (Some e)
      have step: "page_videos st (item # items) my = (?st2, Inl e)"
        unfolding page_videos_step [OF i] using Some by simp
      show ?thesis
        unfolding step using frame by simp
    qed
  qed
qed

lemma add_futures_objects:
  "(\<forall>a. cls (heap (fst (add_futures st xs flds)) a) = cls (heap st a) \<and>
        ident (heap (fst (add_futures st xs flds)) a) = ident (heap st a)) \<and>
   (\<forall>a. a \<notin> set xs \<longrightarrow> heap (fst (add_futures st xs flds)) a = heap st a)"
proof (induction xs arbitrary: st)
  case Nil
  then show ?case by simp
next
  case (Cons b xs)
  let ?obj = "fst (add_loop flds (heap st b) False)"
  let ?st1 = "st\<lparr>heap := (heap st)(b := ?obj)\<rparr>"
  have step: "fst (add_futures st (b # xs) flds) = fst (add_futures ?st1 xs flds)"
    by (simp add: split_beta)
  have same: "cls ?obj = cls (heap st b) \<and> ident ?obj = ident (heap st b)"
    using add_loop_result [of flds "heap st b" False] by simp
  show ?case
    unfolding step using Cons.IH [of ?st1] same by auto
qed

lemma Video_load_info_frame:
  "max_videos (Video_load_info st xs) = max_videos st \<and>
   calls (Video_load_info st xs) = calls st \<and>
   cache (Video_load_info st xs) = cache st \<and>
   next_ref (Video_load_info st xs) = next_ref st \<and>
   (\<forall>a. cls (heap (Video_load_info st xs) a) = cls (heap st a) \<and>
        ident (heap (Video_load_info st xs) a) = ident (heap st a)) \<and>
   (\<forall>a. a \<notin> set xs \<longrightarrow> heap (Video_load_info st xs) a = heap st a)"
  using add_futures_frame [of st xs video_fields] add_futures_objects [of st xs video_fields]
  by (simp add: Video_load_info_def split_beta submit_all_frame)

lemma page_videos_max_videos: "max_videos (fst (page_videos st items my)) = max_videos st"
  using page_videos_any [of st items my] by (rule conjunct1)

lemma page_videos_calls: "calls (fst (page_videos st items my)) = calls st"
  using page_videos_any [of st items my] by blast


lemma Video_load_info_max_videos: "max_videos (Video_load_info st xs) = max_videos st"
  using Video_load_info_frame [of st xs] by (rule conjunct1)

lemma Video_load_info_calls: "calls (Video_load_info st xs) = calls st"
  using Video_load_info_frame [of st xs] by blast

lemma Video_load_info_objects:
  "cache (Video_load_info st xs) = cache st"
  "next_ref (Video_load_info st xs) = next_ref st"
  "cls (heap (Video_load_info st xs) a) = cls (heap st a)"
  "ident (heap (Video_load_info st xs) a) = ident (heap st a)"
  using Video_load_info_frame [of st xs] by blast+

lemma Video_load_info_other:
  "a \<notin> set xs \<Longrightarrow> heap (Video_load_info st xs) a = heap st a"
  using Video_load_info_frame [of st xs] by blast

section \<open>Playlist.videos: the rounds of the loop\<close>



lemma videos_loop_break:
  assumes "max_videos_of (max_videos st) (cls (heap st self)) = Inr mv"
      and "page \<noteq> PNone" "int (length all_videos) < mv"
      and "list_playlistitems R (length (calls st)) (ident (heap st self)) page
             (min (mv - int (length all_videos)) 50) = Inl e"
  shows "videos_loop R (Suc fuel) self st page all_videos
           = Some (st\<lparr>calls := calls st @ [ListPlaylistItems (ident (heap st self)) page
                                              (min (mv - int (length all_videos)) 50)]\<rparr>,
                   Inr all_videos)"
  using assms by (simp add: Let_def)

lemma videos_loop_page:
  assumes "max_videos_of (max_videos st) (cls (heap st self)) = Inr mv"
      and "page \<noteq> PNone" "int (length all_videos) < mv"
      and "list_playlistitems R (length (calls st)) (ident (heap st self)) page
             (min (mv - int (length all_videos)) 50) = Inr data"
      and "st1 = st\<lparr>calls := calls st @ [ListPlaylistItems (ident (heap st self)) page
                                              (min (mv - int (length all_videos)) 50)]\<rparr>"
  shows "videos_loop R (Suc fuel) self st page all_videos
           = (case dict_get data ''nextPageToken'' of
                Inl e \<Rightarrow> Some (st1, Inl e)
              | Inr token \<Rightarrow>
                  (case page_items data of
                     Inl e \<Rightarrow> Some (st1, Inl e)
                   | Inr items \<Rightarrow>
                       (case snd (page_videos st1 items []) of
                          Inl e \<Rightarrow> Some (fst (page_videos st1 items []), Inl e)
                        | Inr myvideos \<Rightarrow>
                            videos_loop R fuel self
                              (Video_load_info (fst (page_videos st1 items [])) myvideos)
                              (if falsy token then PNone else token)
                              (all_videos @ myvideos))))"
  using assms by (simp add: Let_def split_beta cong: sum.case_cong)

declare videos_loop.simps [simp del]

section \<open>Playlist.videos: the bound on the list\<close>




section \<open>The video count\<close>








section \<open>Playlist.videos: what a pagination failure leaves\<close>

lemma extends_refl: "wf_world st \<Longrightarrow> extends st st"
  by (simp add: extends_def)

lemma extends_wf: "extends st st' \<Longrightarrow> wf_world st'"
  by (simp add: extends_def)

lemma extends_object:
  assumes "extends st st'" "a < next_ref st"
  shows "a < next_ref st'" "cls (heap st' a) = cls (heap st a)"
        "ident (heap st' a) = ident (heap st a)"
proof -
  from assms(1) have le: "next_ref st \<le> next_ref st'"
    and all: "\<forall>a < next_ref st. cls (heap st' a) = cls (heap st a) \<and>
                ident (heap st' a) = ident (heap st a) \<and>
                (cls (heap st a) = Playlist \<longrightarrow> heap st' a = heap st a)"
    unfolding extends_def by blast+
  from le assms(2) show "a < next_ref st'" by (rule less_le_trans [rotated])
  from all assms(2) show "cls (heap st' a) = cls (heap st a)" by blast
  from all assms(2) show "ident (heap st' a) = ident (heap st a)" by blast
qed

lemma extends_playlist:
  assumes "extends st st'" "a < next_ref st" "cls (heap st a) = Playlist"
  shows "heap st' a = heap st a"
  using assms unfolding extends_def by blast

lemma extends_trans:
  assumes "extends st st1" "extends st1 st2"
  shows "extends st st2"
  unfolding extends_def
proof (intro conjI allI impI)
  show "wf_world st2"
    using assms(2) by (rule extends_wf)
  show "next_ref st \<le> next_ref st2"
    using assms unfolding extends_def by (blast intro: le_trans)
  fix a
  assume a: "a < next_ref st"
  note a1 = extends_object [OF assms(1) a]
  note a2 = extends_object [OF assms(2) a1(1)]
  show "cls (heap st2 a) = cls (heap st a)"
    using a1(2) a2(2) by simp
  show "ident (heap st2 a) = ident (heap st a)"
    using a1(3) a2(3) by simp
  assume p: "cls (heap st a) = Playlist"
  have "heap st1 a = heap st a"
    using assms(1) a p by (rule extends_playlist)
  moreover have "heap st2 a = heap st1 a"
    using assms(2) a1(1) by (rule extends_playlist) (simp add: a1(2) p)
  ultimately show "heap st2 a = heap st a"
    by simp
qed

lemma extends_Entry_get: "wf_world st \<Longrightarrow> extends st (fst (Entry_get c i st))"
  using Entry_get_keeps_objects [of st c i] wf_world_Entry_get [of st c i]
  by (simp add: extends_def)

lemma wf_world_same_objects:
  assumes "wf_world st" "cache st' = cache st" "next_ref st' = next_ref st"
      and "\<forall>a. cls (heap st' a) = cls (heap st a) \<and> ident (heap st' a) = ident (heap st a)"
  shows "wf_world st'"
  using assms by (simp add: wf_world_def)

lemma extends_set_api_data:
  assumes "wf_world st" "cls (heap st b) = Video"
  shows "extends st (fst (set_api_data st b flds item))"
  unfolding extends_def
proof (intro conjI allI impI)
  let ?st' = "fst (set_api_data st b flds item)"
  show "wf_world ?st'"
    using assms(1) by (rule wf_world_same_objects) (simp_all add: set_api_data_frame)
  show "next_ref st \<le> next_ref ?st'"
    by (simp add: set_api_data_frame)
  fix a
  show "cls (heap ?st' a) = cls (heap st a)"
    by (simp add: set_api_data_frame)
  show "ident (heap ?st' a) = ident (heap st a)"
    by (simp add: set_api_data_frame)
  assume "cls (heap st a) = Playlist"
  with assms(2) have "a \<noteq> b" by auto
  then show "heap ?st' a = heap st a"
    by (rule set_api_data_other)
qed

lemma extends_Video_load_info:
  assumes "wf_world st" "\<forall>a \<in> set xs. cls (heap st a) = Video"
  shows "extends st (Video_load_info st xs)"
  unfolding extends_def
proof (intro conjI allI impI)
  show "wf_world (Video_load_info st xs)"
    using assms(1) by (rule wf_world_same_objects) (simp_all add: Video_load_info_objects)
  show "next_ref st \<le> next_ref (Video_load_info st xs)"
    by (simp add: Video_load_info_objects)
  fix a
  show "cls (heap (Video_load_info st xs) a) = cls (heap st a)"
    by (simp add: Video_load_info_objects)
  show "ident (heap (Video_load_info st xs) a) = ident (heap st a)"
    by (simp add: Video_load_info_objects)
  assume "cls (heap st a) = Playlist"
  with assms(2) have "a \<notin> set xs" by auto
  then show "heap (Video_load_info st xs) a = heap st a"
    by (rule Video_load_info_other)
qed

lemma extends_calls: "wf_world st \<Longrightarrow> extends st (st\<lparr>calls := cs\<rparr>)"
  by (simp add: extends_def wf_world_def)

lemma good_item_id:
  assumes "good_item item"
  obtains i where "item_video_id item = Inr (PStr i)"
    and "\<exists>t. field_value 0 Video ''title'' item None = Inr t"
  using assms by (auto simp: good_item_def split: sum.splits pyval.splits)

lemma set_title_no_exception:
  assumes "\<exists>t. field_value 0 Video ''title'' item None = Inr t"
  shows "snd (set_api_data st a [''title''] item) = None"
proof -
  from assms obtain t where t: "field_value (max_videos st) (cls (heap st a)) ''title'' item None = Inr t"
    using field_value_title [of "max_videos st" "cls (heap st a)" item None] by auto
  show ?thesis
  proof (cases "attrs (heap st a) ''_title''")
    case None
    with t show ?thesis
      by (simp add: set_api_data_unfold)
  next
    case (Some f)
    with t show ?thesis
      by (cases f) (simp_all add: set_api_data_unfold)
  qed
qed

lemma page_videos_good:
  assumes "list_all good_item items" "wf_world st"
  shows "\<exists>refs. snd (page_videos st items my) = Inr (my @ refs) \<and>
           extends st (fst (page_videos st items my)) \<and>
           map (\<lambda>a. ident (heap (fst (page_videos st items my)) a)) refs = item_ids items \<and>
           (\<forall>a \<in> set refs. a < next_ref (fst (page_videos st items my)) \<and>
                            cls (heap (fst (page_videos st items my)) a) = Video)"
  using assms
proof (induction items arbitrary: st my)
  case Nil
  then show ?case
    by (simp add: extends_refl item_ids_def)
next
  case (Cons item items)
  from Cons.prems(1) have good: "good_item item" and goods: "list_all good_item items"
    by simp_all
  from good obtain i where
    i: "item_video_id item = Inr (PStr i)" and
    title: "\<exists>t. field_value 0 Video ''title'' item None = Inr t"
    by (rule good_item_id)
  let ?st1 = "fst (Entry_get Video i st)"
  let ?video = "snd (Entry_get Video i st)"
  let ?st2 = "fst (set_api_data ?st1 ?video [''title''] item)"
  let ?st' = "fst (page_videos ?st2 items (my @ [?video]))"
  have step: "page_videos st (item # items) my = page_videos ?st2 items (my @ [?video])"
    unfolding page_videos_step [OF i] using set_title_no_exception [OF title] by simp
  have e1: "extends st ?st1"
    using Cons.prems(2) by (rule extends_Entry_get)
  then have wf1: "wf_world ?st1"
    by (rule extends_wf)
  have video1: "?video < next_ref ?st1 \<and> cls (heap ?st1 ?video) = Video \<and>
                ident (heap ?st1 ?video) = i"
    using Cons.prems(2) by (rule Entry_get_result)
  have e2: "extends ?st1 ?st2"
    using wf1 video1 by (intro extends_set_api_data) simp_all
  then have wf2: "wf_world ?st2"
    by (rule extends_wf)
  have v1: "?video < next_ref ?st1"
    using video1 by simp
  have video2: "?video < next_ref ?st2 \<and> cls (heap ?st2 ?video) = Video \<and>
                ident (heap ?st2 ?video) = i"
    using extends_object [OF e2 v1] video1 by simp
  from Cons.IH [OF goods wf2, of "my @ [?video]"] obtain refs where
    res: "snd (page_videos ?st2 items (my @ [?video])) = Inr ((my @ [?video]) @ refs)" and
    e3: "extends ?st2 ?st'" and
    ids: "map (\<lambda>a. ident (heap ?st' a)) refs = item_ids items" and
    refs: "\<forall>a \<in> set refs. a < next_ref ?st' \<and> cls (heap ?st' a) = Video"
    by blast
  have v2: "?video < next_ref ?st2"
    using video2 by simp
  have video3: "?video < next_ref ?st' \<and> cls (heap ?st' ?video) = Video \<and>
                ident (heap ?st' ?video) = i"
    using extends_object [OF e3 v2] video2 by simp
  have "snd (page_videos ?st2 items (my @ [?video])) = Inr (my @ (?video # refs))"
    using res by simp
  moreover have "extends st ?st'"
    using e1 e2 e3 by (blast intro: extends_trans)
  moreover have "map (\<lambda>a. ident (heap ?st' a)) (?video # refs) = item_ids (item # items)"
    using ids video3 i by (simp add: item_ids_def)
  moreover have "\<forall>a \<in> set (?video # refs). a < next_ref ?st' \<and> cls (heap ?st' a) = Video"
    using refs video3 by simp
  ultimately show ?case
    unfolding step by blast
qed

lemma good_page_parts:
  assumes "good_page p"
  obtains token items where
    "dict_get p ''nextPageToken'' = Inr token" "page_items p = Inr items"
    "list_all good_item items" "next_token p = (if falsy token then PNone else token)"
    "page_ids p = item_ids items"
  using assms by (auto simp: good_page_def next_token_def page_ids_def split: sum.splits)

lemma max_videos_of_Playlist: "max_videos_of mv Playlist = Inr mv"
  by (simp add: max_videos_of_def)

lemma videos_loop_pages:
  assumes "serves R (length (calls st)) (ident (heap st self)) (max_videos st) page
             (length all_videos) pages"
      and "list_all good_page pages" "list_all (\<lambda>p. next_token p \<noteq> PNone) pages"
      and "int (length all_videos + length (concat (map page_ids pages))) < max_videos st"
      and "page \<noteq> PNone" "wf_world st" "self < next_ref st" "cls (heap st self) = Playlist"
      and "length pages < fuel"
  shows "\<exists>st' refs. videos_loop R fuel self st page all_videos = Some (st', Inr (all_videos @ refs)) \<and>
           extends st st' \<and>
           map (\<lambda>a. ident (heap st' a)) refs = concat (map page_ids pages) \<and>
           (\<forall>a \<in> set refs. a < next_ref st' \<and> cls (heap st' a) = Video)"
  using assms
proof (induction pages arbitrary: st page all_videos fuel)
  case Nil
  from Nil.prems(9) obtain f where fuel: "fuel = Suc f"
    by (cases fuel) simp_all
  let ?m = "min (max_videos st - int (length all_videos)) 50"
  let ?st1 = "st\<lparr>calls := calls st @ [ListPlaylistItems (ident (heap st self)) page ?m]\<rparr>"
  have mv: "max_videos_of (max_videos st) (cls (heap st self)) = Inr (max_videos st)"
    using Nil.prems(8) by (simp add: max_videos_of_Playlist)
  have less: "int (length all_videos) < max_videos st"
    using Nil.prems(4) by simp
  from Nil.prems(1) obtain e where
    "list_playlistitems R (length (calls st)) (ident (heap st self)) page ?m = Inl e"
    by (auto split: sum.splits)
  then have "videos_loop R fuel self st page all_videos = Some (?st1, Inr (all_videos @ []))"
    unfolding fuel using videos_loop_break [OF mv Nil.prems(5) less] by simp
  moreover have "extends st ?st1"
    using Nil.prems(6) by (rule extends_calls)
  ultimately show ?case
    by (intro exI [of _ ?st1] exI [of _ "[]"]) simp
next
  case (Cons p ps)
  from Cons.prems(9) obtain f where fuel: "fuel = Suc f" and f: "length ps < f"
    by (cases fuel) simp_all
  let ?m = "min (max_videos st - int (length all_videos)) 50"
  let ?st1 = "st\<lparr>calls := calls st @ [ListPlaylistItems (ident (heap st self)) page ?m]\<rparr>"
  have mv: "max_videos_of (max_videos st) (cls (heap st self)) = Inr (max_videos st)"
    using Cons.prems(8) by (simp add: max_videos_of_Playlist)
  have less: "int (length all_videos) < max_videos st"
    using Cons.prems(4) by simp
  from Cons.prems(1) have
    reply: "list_playlistitems R (length (calls st)) (ident (heap st self)) page ?m = Inr p" and
    later: "serves R (Suc (length (calls st))) (ident (heap st self)) (max_videos st)
              (next_token p) (length all_videos + length (page_ids p)) ps"
    by simp_all
  from Cons.prems(2) have "good_page p" and goods: "list_all good_page ps"
    by simp_all
  then obtain token items where
    token: "dict_get p ''nextPageToken'' = Inr token" and
    items: "page_items p = Inr items" and
    good: "list_all good_item items" and
    nxt: "next_token p = (if falsy token then PNone else token)" and
    ids_p: "page_ids p = item_ids items"
    by (auto elim: good_page_parts)
  from Cons.prems(3) have more: "next_token p \<noteq> PNone"
    and tokens: "list_all (\<lambda>p. next_token p \<noteq> PNone) ps"
    by simp_all
  let ?st2 = "fst (page_videos ?st1 items [])"
  have e1: "extends st ?st1"
    using Cons.prems(6) by (rule extends_calls)
  from page_videos_good [OF good extends_wf [OF e1], of "[]"] obtain refs1 where
    my: "snd (page_videos ?st1 items []) = Inr refs1" and
    e2: "extends ?st1 ?st2" and
    ids1: "map (\<lambda>a. ident (heap ?st2 a)) refs1 = item_ids items" and
    refs1: "\<forall>a \<in> set refs1. a < next_ref ?st2 \<and> cls (heap ?st2 a) = Video"
    by auto
  let ?st3 = "Video_load_info ?st2 refs1"
  have e3: "extends ?st2 ?st3"
    using extends_wf [OF e2] refs1 by (intro extends_Video_load_info) simp_all
  have e13: "extends st ?st3"
    using e1 e2 e3 by (blast intro: extends_trans)
  have round: "videos_loop R fuel self st page all_videos
                 = videos_loop R f self ?st3 (next_token p) (all_videos @ refs1)"
    unfolding fuel videos_loop_page [OF mv Cons.prems(5) less reply refl]
    by (simp add: token items my nxt)
  have len1: "length refs1 = length (page_ids p)"
    using ids1 ids_p by (metis length_map)
  have calls3: "length (calls ?st3) = Suc (length (calls st))"
    by (simp add: Video_load_info_calls page_videos_calls)
  have mv3: "max_videos ?st3 = max_videos st"
    by (simp add: Video_load_info_max_videos page_videos_max_videos)
  note self3 = extends_object [OF e13 Cons.prems(7)]
  have p1: "serves R (length (calls ?st3)) (ident (heap ?st3 self)) (max_videos ?st3)
              (next_token p) (length (all_videos @ refs1)) ps"
    using later by (simp only: calls3 mv3 self3(3) length_append len1)
  have p4: "int (length (all_videos @ refs1) + length (concat (map page_ids ps)))
              < max_videos ?st3"
    using Cons.prems(4) by (simp add: mv3 len1)
  have p8: "cls (heap ?st3 self) = Playlist"
    using self3(2) Cons.prems(8) by simp
  from Cons.IH [OF p1 goods tokens p4 more extends_wf [OF e13] self3(1) p8 f]
  obtain st' refs where
    loop: "videos_loop R f self ?st3 (next_token p) (all_videos @ refs1)
             = Some (st', Inr ((all_videos @ refs1) @ refs))" and
    e4: "extends ?st3 st'" and
    ids: "map (\<lambda>a. ident (heap st' a)) refs = concat (map page_ids ps)" and
    refs: "\<forall>a \<in> set refs. a < next_ref st' \<and> cls (heap st' a) = Video"
    by blast
  have e24: "extends ?st2 st'"
    using e3 e4 by (rule extends_trans)
  have kept: "a < next_ref st' \<and> cls (heap st' a) = Video \<and>
              ident (heap st' a) = ident (heap ?st2 a)" if "a \<in> set refs1" for a
  proof -
    from that refs1 have a: "a < next_ref ?st2" and v: "cls (heap ?st2 a) = Video"
      by simp_all
    from extends_object [OF e24 a] v show ?thesis by simp
  qed
  have "map (\<lambda>a. ident (heap st' a)) refs1 = map (\<lambda>a. ident (heap ?st2 a)) refs1"
    using kept by simp
  then have ids1': "map (\<lambda>a. ident (heap st' a)) refs1 = page_ids p"
    using ids1 ids_p by simp
  have "videos_loop R fuel self st page all_videos
          = Some (st', Inr (all_videos @ (refs1 @ refs)))"
    using round loop by simp
  moreover have "extends st st'"
    using e13 e4 by (rule extends_trans)
  moreover have "map (\<lambda>a. ident (heap st' a)) (refs1 @ refs) = concat (map page_ids (p # ps))"
    using ids1' ids by simp
  moreover have "\<forall>a \<in> set (refs1 @ refs). a < next_ref st' \<and> cls (heap st' a) = Video"
    using kept refs by auto
  ultimately show ?case
    by blast
qed

text \<open>
  C3. Let the remote answer the calls of the job of a playlist with some pages and raise
  at the call after them, where the job does make that call: the pages before are good
  (the job can process them), each carries a page token, and together they hold fewer
  than \<open>max_videos\<close> videos. Then, given fuel for one round more than there are pages, the
  job ends without an exception and the \<^verbatim>\<open>videos\<close> future of the playlist, unset
  before, is set to a list of video objects whose ids are exactly the ids of the pages
  fetched before the failure, in order. It is neither left unset nor set to None. This
  holds for any number of pages before the failure, at least one included.
\<close>

theorem videos_set_after_pagination_failure:
  assumes "wf_world st" "self < next_ref st" "cls (heap st self) = Playlist"
      and "fut st self ''_videos'' = Some Pending"
      and "list_all good_page pages" "list_all (\<lambda>p. next_token p \<noteq> PNone) pages"
      and "int (length (concat (map page_ids pages))) < max_videos st"
      and "serves R (length (calls st)) (ident (heap st self)) (max_videos st) (PStr []) 0 pages"
      and "length pages < fuel"
  shows "\<exists>st' vs. videos_job R fuel st self = Some (st', None) \<and>
           fut st' self ''_videos'' = Some (Resolved (PList (map PRef vs))) \<and>
           map (\<lambda>a. ident (heap st' a)) vs = concat (map page_ids pages) \<and>
           (\<forall>a \<in> set vs. cls (heap st' a) = Video)"
proof -
  have start: "serves R (length (calls st)) (ident (heap st self)) (max_videos st) (PStr [])
                 (length ([] :: nat list)) pages"
    using assms(8) by simp
  have total: "int (length ([] :: nat list) + length (concat (map page_ids pages)))
                 < max_videos st"
    using assms(7) by simp
  have token: "PStr [] \<noteq> PNone"
    by simp
  from videos_loop_pages [OF start assms(5) assms(6) total token assms(1) assms(2) assms(3)
         assms(9)]
  obtain st1 vs where
    loop: "videos_loop R fuel self st (PStr []) [] = Some (st1, Inr vs)" and
    ext: "extends st st1" and
    ids: "map (\<lambda>a. ident (heap st1 a)) vs = concat (map page_ids pages)" and
    vids: "\<forall>a \<in> set vs. a < next_ref st1 \<and> cls (heap st1 a) = Video"
    by auto
  have same: "heap st1 self = heap st self"
    using ext assms(2) assms(3) by (rule extends_playlist)
  then have pending: "attrs (heap st1 self) ''_videos'' = Some Pending"
    using assms(4) by (simp add: fut_def)
  let ?obj = "(heap st1 self)\<lparr>attrs := (attrs (heap st1 self))(''_videos'' \<mapsto>
                 Resolved (PList (map PRef vs)))\<rparr>"
  let ?st' = "st1\<lparr>heap := (heap st1)(self := ?obj)\<rparr>"
  have job: "videos_job R fuel st self = Some (?st', None)"
    using loop pending by (simp add: videos_job_def)
  have set: "fut ?st' self ''_videos'' = Some (Resolved (PList (map PRef vs)))"
    by (simp add: fut_def)
  have other: "a \<noteq> self" if "a \<in> set vs" for a
  proof
    assume "a = self"
    with that vids have "cls (heap st1 self) = Video" by simp
    with same assms(3) show False by simp
  qed
  then have "map (\<lambda>a. ident (heap ?st' a)) vs = map (\<lambda>a. ident (heap st1 a)) vs"
    by simp
  with ids have ids': "map (\<lambda>a. ident (heap ?st' a)) vs = concat (map page_ids pages)"
    by simp
  have cls': "\<forall>a \<in> set vs. cls (heap ?st' a) = Video"
    using vids other by simp
  from job set ids' cls' show ?thesis
    by blast
qed

text \<open>
  The playlist \<^verbatim>\<open>p\<close> with a remote that returns a first page of two videos and raises
  at the second call: the future holds the two videos of the first page.
\<close>

theorem videos_set_after_pagination_failure_witness:
  "wf_world (playlist_world 60) \<and> 0 < next_ref (playlist_world 60) \<and>
   cls (heap (playlist_world 60) 0) = Playlist \<and>
   fut (playlist_world 60) 0 ''_videos'' = Some Pending \<and>
   list_all good_page [first_page] \<and> list_all (\<lambda>p. next_token p \<noteq> PNone) [first_page] \<and>
   int (length (concat (map page_ids [first_page]))) < max_videos (playlist_world 60) \<and>
   serves one_page_remote (length (calls (playlist_world 60)))
     (ident (heap (playlist_world 60) 0)) (max_videos (playlist_world 60)) (PStr []) 0
     [first_page] \<and>
   concat (map page_ids [first_page]) = [''a'', ''b''] \<and>
   map_option snd (videos_job one_page_remote 2 (playlist_world 60) 0) = Some None \<and>
   videos_future one_page_remote 2 (playlist_world 60) 0
     = Some (Resolved (PList [PRef 1, PRef 2]))"
proof -
  have h1: "wf_world (playlist_world 60)" by code_simp
  have h2: "0 < next_ref (playlist_world 60)" by code_simp
  have h3: "cls (heap (playlist_world 60) 0) = Playlist" by code_simp
  have h4: "fut (playlist_world 60) 0 ''_videos'' = Some Pending" by code_simp
  have h5: "list_all good_page [first_page]" by code_simp
  have h6: "list_all (\<lambda>p. next_token p \<noteq> PNone) [first_page]" by code_simp
  have h7: "int (length (concat (map page_ids [first_page]))) < max_videos (playlist_world 60)"
    by code_simp
  have h8: "serves one_page_remote (length (calls (playlist_world 60)))
              (ident (heap (playlist_world 60) 0)) (max_videos (playlist_world 60)) (PStr []) 0
              [first_page]"
    by code_simp
  have h9: "length [first_page] < (2::nat)" by simp
  have ids: "concat (map page_ids [first_page]) = [''a'', ''b'']" by code_simp
  have list: "videos_future one_page_remote 2 (playlist_world 60) 0
                = Some (Resolved (PList [PRef 1, PRef 2]))"
    by code_simp
  from videos_set_after_pagination_failure [OF h1 h2 h3 h4 h5 h6 h7 h8 h9]
  obtain st' where "videos_job one_page_remote 2 (playlist_world 60) 0 = Some (st', None)"
    by blast
  then have ends: "map_option snd (videos_job one_page_remote 2 (playlist_world 60) 0) = Some None"
    by simp
  from h1 h2 h3 h4 h5 h6 h7 h8 ids ends list show ?thesis
    by blast
qed

end
